theory Spec2Isabelle
  imports Main "HOL-Library.Sublist"
begin

section \<open>The verify-product request handler\<close>

text \<open>
  A shallow embedding of \<^verbatim>\<open>src/app/api/verify-product/route.ts\<close>.
  JavaScript strings are modelled as \<^typ>\<open>string\<close> over 7-bit code units (ASCII): the
  white space of \<^verbatim>\<open>trim\<close> and \<^verbatim>\<open>\s\<close> is tab, line feed, vertical tab, form feed,
  carriage return and space, and the case mappings act on the letters A-Z and a-z.
  JavaScript numbers that the handler uses as counters, balances, times and confidences
  are integers and are modelled as \<^typ>\<open>int\<close>. The database behind the ORM is
  PostgreSQL.
\<close>

subsection \<open>String primitives\<close>

definition isSpace :: "char \<Rightarrow> bool" where
  "isSpace c = (c \<in> set [CHR 0x09, CHR 0x0A, CHR 0x0B, CHR 0x0C, CHR 0x0D, CHR '' ''])"

definition isUpper :: "char \<Rightarrow> bool" where
  "isUpper c = (c \<in> set ''ABCDEFGHIJKLMNOPQRSTUVWXYZ'')"

definition isDigit :: "char \<Rightarrow> bool" where
  "isDigit c = (c \<in> set ''0123456789'')"

definition lowerChar :: "char \<Rightarrow> char" where
  "lowerChar c =
     (case map_of (zip ''ABCDEFGHIJKLMNOPQRSTUVWXYZ'' ''abcdefghijklmnopqrstuvwxyz'') c of
        None \<Rightarrow> c
      | Some l \<Rightarrow> l)"

definition upperChar :: "char \<Rightarrow> char" where
  "upperChar c =
     (case map_of (zip ''abcdefghijklmnopqrstuvwxyz'' ''ABCDEFGHIJKLMNOPQRSTUVWXYZ'') c of
        None \<Rightarrow> c
      | Some u \<Rightarrow> u)"

text \<open>\<^verbatim>\<open>String.prototype.toLowerCase\<close>, \<^verbatim>\<open>toUpperCase\<close> and \<^verbatim>\<open>trim\<close>.\<close>

definition toLowerCase :: "string \<Rightarrow> string" where
  "toLowerCase s = map lowerChar s"

definition toUpperCase :: "string \<Rightarrow> string" where
  "toUpperCase s = map upperChar s"

definition trim :: "string \<Rightarrow> string" where
  "trim s = rev (dropWhile isSpace (rev (dropWhile isSpace s)))"

text \<open>\<^verbatim>\<open>s.replace(/\s+/g, ' ')\<close>: every maximal run of white space becomes one space.\<close>

fun collapseSpaces :: "string \<Rightarrow> string" where
  "collapseSpaces [] = []"
| "collapseSpaces [c] = [if isSpace c then CHR '' '' else c]"
| "collapseSpaces (c # d # cs) =
     (if isSpace c then (if isSpace d then collapseSpaces (d # cs)
                         else CHR '' '' # collapseSpaces (d # cs))
      else c # collapseSpaces (d # cs))"

text \<open>\<^verbatim>\<open>s.split(' ')[0]\<close>: the part of \<open>s\<close> before its first space character.\<close>

definition firstToken :: "string \<Rightarrow> string" where
  "firstToken s = takeWhile (\<lambda>c. c \<noteq> CHR '' '') s"

text \<open>\<^verbatim>\<open>xs.join(sep)\<close>.\<close>

fun join :: "string \<Rightarrow> string list \<Rightarrow> string" where
  "join sep [] = []"
| "join sep [x] = x"
| "join sep (x # y # ys) = x @ sep @ join sep (y # ys)"

text \<open>
  Containment in the words of the specification: \<open>needle\<close> occurs in \<open>hay\<close> as a
  contiguous part. The handler does not compute it; the properties below compare the
  content query with it.
\<close>

fun hasSubstring :: "string \<Rightarrow> string \<Rightarrow> bool" where
  "hasSubstring [] needle = (needle = [])"
| "hasSubstring (c # cs) needle = (prefix needle (c # cs) \<or> hasSubstring cs needle)"

text \<open>JavaScript truthiness of a string, and of an optional string.\<close>

definition truthy :: "string \<Rightarrow> bool" where
  "truthy s = (s \<noteq> [])"

definition truthyOpt :: "string option \<Rightarrow> bool" where
  "truthyOpt s = (case s of None \<Rightarrow> False | Some t \<Rightarrow> truthy t)"

text \<open>\<^verbatim>\<open>x || ''\<close> for an optional string.\<close>

definition orEmpty :: "string option \<Rightarrow> string" where
  "orEmpty s = (case s of None \<Rightarrow> [] | Some t \<Rightarrow> t)"

subsection \<open>Rate limiting\<close>

record rate_entry =
  count :: int
  resetTime :: int

type_synonym rate_store = "string \<rightharpoonup> rate_entry"

definition RATE_LIMIT_WINDOW :: int where
  "RATE_LIMIT_WINDOW = 60 * 1000"

definition RATE_LIMIT_MAX_REQUESTS :: int where
  "RATE_LIMIT_MAX_REQUESTS = 10"

text \<open>
  \<^verbatim>\<open>checkRateLimit(ip)\<close>, with the clock reading \<open>now\<close> and the module-level store made
  explicit; the updated store is returned with the verdict.
\<close>

definition checkRateLimit :: "rate_store \<Rightarrow> int \<Rightarrow> string \<Rightarrow> bool \<times> rate_store" where
  "checkRateLimit store now ip =
     (case store ip of
        None \<Rightarrow> (True, store(ip \<mapsto> \<lparr>count = 1, resetTime = now + RATE_LIMIT_WINDOW\<rparr>))
      | Some userLimit \<Rightarrow>
          if now > resetTime userLimit
          then (True, store(ip \<mapsto> \<lparr>count = 1, resetTime = now + RATE_LIMIT_WINDOW\<rparr>))
          else if count userLimit \<ge> RATE_LIMIT_MAX_REQUESTS then (False, store)
          else (True, store(ip \<mapsto> userLimit\<lparr>count := count userLimit + 1\<rparr>)))"

text \<open>
  A run of the limiter over a sequence of arrivals (clock reading, address), oldest
  first: the verdicts in order, and the store afterwards.
\<close>

fun runLimiter :: "rate_store \<Rightarrow> (int \<times> string) list \<Rightarrow> bool list \<times> rate_store" where
  "runLimiter store [] = ([], store)"
| "runLimiter store ((now, ip) # rest) =
     (let (ok, store') = checkRateLimit store now ip;
          (oks, store'') = runLimiter store' rest
      in (ok # oks, store''))"

text \<open>The arrivals of a run that were accepted, for one address.\<close>

definition acceptedFor :: "string \<Rightarrow> rate_store \<Rightarrow> (int \<times> string) list \<Rightarrow> (int \<times> string) list" where
  "acceptedFor ip store reqs =
     map fst (filter (\<lambda>(r, ok). ok \<and> snd r = ip) (zip reqs (fst (runLimiter store reqs))))"

subsection \<open>Alert records and deduplication\<close>

record alert =
  alertId :: string
  title :: string
  cleanContent :: "string option"
  url :: string
  batchNumbers :: "string list"
  manufacturer :: "string option"
  alertType :: string
  severity :: string
  scrapedAt :: int
  active :: bool

text \<open>
  \<^verbatim>\<open>self.findIndex(pred)\<close>: the index of the first element satisfying \<open>pred\<close>, or \<open>-1\<close>.
\<close>

fun findIndex :: "('a \<Rightarrow> bool) \<Rightarrow> 'a list \<Rightarrow> int" where
  "findIndex P [] = -1"
| "findIndex P (x # xs) =
     (if P x then 0 else (let i = findIndex P xs in if i = -1 then -1 else i + 1))"

text \<open>
  \<^verbatim>\<open>allMatches.filter((alert, index, self) => index === self.findIndex(a => a.id === alert.id))\<close>
\<close>

definition dedupById :: "alert list \<Rightarrow> alert list" where
  "dedupById allMatches =
     map snd (filter (\<lambda>(index, a). int index = findIndex (\<lambda>b. alertId b = alertId a) allMatches)
                     (enumerate 0 allMatches))"

text \<open>\<^verbatim>\<open>uniqueAlerts\<close>: the deduplicated list cut by \<^verbatim>\<open>.slice(0, 10)\<close>.\<close>

definition uniqueAlerts :: "alert list \<Rightarrow> alert list" where
  "uniqueAlerts allMatches = take 10 (dedupById allMatches)"

text \<open>
  The property in the words of the specification: walk the list from the front and keep
  an alert exactly when its id has not been seen before.
\<close>

fun firstOccurrences :: "string list \<Rightarrow> alert list \<Rightarrow> alert list" where
  "firstOccurrences seen [] = []"
| "firstOccurrences seen (a # as) =
     (if alertId a \<in> set seen then firstOccurrences seen as
      else a # firstOccurrences (alertId a # seen) as)"

subsection \<open>Request body, validation and sanitisation\<close>

text \<open>
  A property of the parsed JSON body: absent, present with a value of another JSON type,
  or present with a value of the type the schema asks for.
\<close>

datatype 'a field = Missing | Illtyped | Given 'a

record body =
  productName :: "string field"
  productDescription :: "string field"
  userBatchNumber :: "string field"
  images :: "string list field"

text \<open>
  What \<^verbatim>\<open>await request.json()\<close> yields: it throws on a body that is not JSON, and
  otherwise returns a value that is or is not an object.
\<close>

datatype request_json = Unparsable | NotAnObject | Object body

text \<open>The character class \<^verbatim>\<open>[<>\"';&]\<close>.\<close>

definition forbidden :: "char \<Rightarrow> bool" where
  "forbidden c = (c \<in> set [CHR ''<'', CHR ''>'', CHR 0x22, CHR 0x27, CHR '';'', CHR ''&''])"

text \<open>The character class \<^verbatim>\<open>[A-Z0-9\-_\s]\<close>.\<close>

definition batchChar :: "char \<Rightarrow> bool" where
  "batchChar c = (isUpper c \<or> isDigit c \<or> c = CHR ''-'' \<or> c = CHR ''_'' \<or> isSpace c)"

text \<open>\<^verbatim>\<open>verifyProductSchema.safeParse(requestBody).success\<close>.\<close>

definition verifyProductSchema :: "body \<Rightarrow> bool" where
  "verifyProductSchema b =
     ((case productName b of
         Given s \<Rightarrow> 2 \<le> length s \<and> length s \<le> 200 \<and> list_all (\<lambda>c. \<not> forbidden c) s
       | _ \<Rightarrow> False) \<and>
      (case productDescription b of
         Given s \<Rightarrow> 5 \<le> length s \<and> length s \<le> 1000 \<and> list_all (\<lambda>c. \<not> forbidden c) s
       | _ \<Rightarrow> False) \<and>
      (case userBatchNumber b of
         Missing \<Rightarrow> True
       | Given s \<Rightarrow> length s \<le> 50 \<and> list_all batchChar s
       | Illtyped \<Rightarrow> False) \<and>
      (case images b of
         Missing \<Rightarrow> True
       | Given xs \<Rightarrow> length xs \<le> 3
       | Illtyped \<Rightarrow> False))"

definition sanitizeInput :: "string \<Rightarrow> string" where
  "sanitizeInput input =
     take 1000 (collapseSpaces (filter (\<lambda>c. \<not> forbidden c) (trim input)))"

text \<open>The request body after step 2 of the handler.\<close>

record clean_body =
  cleanName :: string
  cleanDescription :: string
  cleanBatch :: "string option"
  cleanImages :: "string list option"

definition fieldOpt :: "'a field \<Rightarrow> 'a option" where
  "fieldOpt f = (case f of Given x \<Rightarrow> Some x | _ \<Rightarrow> None)"

definition sanitizeBody :: "body \<Rightarrow> clean_body" where
  "sanitizeBody b =
     \<lparr>cleanName = sanitizeInput (orEmpty (fieldOpt (productName b))),
      cleanDescription = sanitizeInput (orEmpty (fieldOpt (productDescription b))),
      cleanBatch = (case fieldOpt (userBatchNumber b) of
                      None \<Rightarrow> None
                    | Some s \<Rightarrow> if truthy s then Some (sanitizeInput s) else Some s),
      cleanImages = fieldOpt (images b)\<rparr>"

subsection \<open>Responses\<close>

text \<open>
  The outcome of the decision logic (the object \<^verbatim>\<open>result\<close>). The elapsed search time
  is a clock difference and is left out; the leading emoji of the summaries is left out.
\<close>

record result =
  isCounterfeit :: bool
  summary :: string
  sourceUrl :: string
  source :: string
  batchNumber :: "string option"
  resultAlertType :: string
  confidence :: int
  detectedAlertDetails :: "string option"
  alertsFound :: int

text \<open>
  The three shapes of JSON response: an error object with its HTTP status and its
  \<^verbatim>\<open>error\<close> text; the fixed safe response of the \<^verbatim>\<open>confidence === 0\<close> branch, with the
  result id and the new balance; and the general response, which spreads \<^verbatim>\<open>result\<close>.
  Time stamps are left out.
\<close>

datatype response =
    ErrorJson int string
  | SafeJson string int
  | ResultJson string result int

definition safeSummary :: string where
  "safeSummary = ''SAFE PRODUCT: No counterfeit alerts found in NAFDAC database for this product.''"

definition defaultSourceUrl :: string where
  "defaultSourceUrl = ''https://nafdac.gov.ng/category/recalls-and-alerts/''"

fun status :: "response \<Rightarrow> int" where
  "status (ErrorJson st msg) = st"
| "status (SafeJson rid bal) = 200"
| "status (ResultJson rid r bal) = 200"

fun responseIsCounterfeit :: "response \<Rightarrow> bool option" where
  "responseIsCounterfeit (ErrorJson st msg) = None"
| "responseIsCounterfeit (SafeJson rid bal) = Some False"
| "responseIsCounterfeit (ResultJson rid r bal) = Some (isCounterfeit r)"

fun responseConfidence :: "response \<Rightarrow> int option" where
  "responseConfidence (ErrorJson st msg) = None"
| "responseConfidence (SafeJson rid bal) = Some 0"
| "responseConfidence (ResultJson rid r bal) = Some (confidence r)"

fun responseSummary :: "response \<Rightarrow> string option" where
  "responseSummary (ErrorJson st msg) = None"
| "responseSummary (SafeJson rid bal) = Some safeSummary"
| "responseSummary (ResultJson rid r bal) = Some (summary r)"

fun newBalance :: "response \<Rightarrow> int option" where
  "newBalance (ErrorJson st msg) = None"
| "newBalance (SafeJson rid bal) = Some bal"
| "newBalance (ResultJson rid r bal) = Some bal"

subsection \<open>The store, the environment of a request and the thrown errors\<close>

record user_row =
  pointsBalance :: int
  userEmail :: string
  userName :: string

record product_check =
  checkId :: string
  checkUserId :: string
  checkProductName :: string
  checkProductDescription :: string
  checkImages :: "string list"
  pointsUsed :: int

record check_result =
  crUserId :: string
  crProductCheckId :: string
  crIsCounterfeit :: bool
  crSummary :: string
  crSourceUrl :: string
  crSource :: string
  crBatchNumber :: "string option"
  crAlertType :: string
  crConfidence :: int

text \<open>The calls the handler makes to the alert table and to the other services, in order.\<close>

datatype call =
    OcrFetch
  | BatchQuery string
  | TitleQuery string
  | ContentQuery string
  | EnsembleAnalysis

text \<open>
  Everything the handler reads and writes: the in-memory rate-limit store, the tables of
  the database, and the log of outgoing calls.
\<close>

record world =
  rateLimitStore :: rate_store
  users :: "string \<rightharpoonup> user_row"
  alerts :: "alert list"
  productChecks :: "product_check list"
  checkResults :: "check_result list"
  calls :: "call list"

record session_user =
  sessionUserId :: string
  sessionEmail :: "string option"
  sessionName :: "string option"

text \<open>
  \<^verbatim>\<open>Promise.race([auth(), createTimeoutPromise(10000)])\<close> rejects (on an error or on the
  time-out), resolves to no session, or resolves to a session.
\<close>

datatype auth_outcome = AuthRejected | NoSession | Session session_user

datatype db_op =
    UserFindUnique
  | UserCreate
  | AlertFindManyBatch
  | AlertFindManyTitle
  | AlertFindManyContent
  | UserUpdate
  | ProductCheckCreate
  | CheckResultCreate

datatype exn = AuthError | ServiceError | EnsembleError | DbError db_op

record ensemble_result =
  ensembleConfidence :: int
  ensembleIsCounterfeit :: bool

text \<open>
  What one request brings and what its surroundings decide: the clock, the address
  headers, the body, the outcome of authentication, which database operations throw,
  whether constructing the service object throws, the text the OCR step ends with (empty
  when the fetch fails), what the ensemble analysis would return (\<open>None\<close>: it throws),
  and the id the database gives the new product check.
\<close>

record env =
  now :: int
  forwardedFor :: "string option"
  realIp :: "string option"
  requestIp :: "string option"
  json :: request_json
  authOutcome :: auth_outcome
  dbFails :: "db_op \<Rightarrow> bool"
  serviceFails :: bool
  ocrResult :: string
  ensembleOutcome :: "ensemble_result option"
  newCheckId :: string

definition clientIP :: "env \<Rightarrow> string" where
  "clientIP e =
     (if truthyOpt (forwardedFor e) then orEmpty (forwardedFor e)
      else if truthyOpt (realIp e) then orEmpty (realIp e)
      else if truthyOpt (requestIp e) then orEmpty (requestIp e)
      else ''unknown'')"

subsection \<open>The three queries\<close>

text \<open>
  \<^verbatim>\<open>prisma.nafdacAlert.findMany\<close> with \<^verbatim>\<open>where: {active: true, ...}\<close>,
  \<^verbatim>\<open>orderBy: {scrapedAt: 'desc'}\<close> and \<^verbatim>\<open>take: 5\<close>, over the table as a list. Rows
  with equal \<^verbatim>\<open>scrapedAt\<close> keep their table order.
\<close>

definition findMany :: "(alert \<Rightarrow> bool) \<Rightarrow> alert list \<Rightarrow> alert list" where
  "findMany matches table =
     take 5 (sort_key (\<lambda>a. - scrapedAt a) (filter (\<lambda>a. active a \<and> matches a) table))"

text \<open>
  The filter \<^verbatim>\<open>{contains: needle, mode: 'insensitive'}\<close> reaches the PostgreSQL database
  as \<^verbatim>\<open>column ILIKE '%needle%'\<close>, with the needle put between the two percent signs as
  it is: a percent sign, an underscore or a backslash inside the needle keeps its meaning
  in the pattern.

  \<open>likeMatch pattern s\<close> is the \<^verbatim>\<open>LIKE\<close> match of the whole of \<open>s\<close>: a percent sign
  stands for any run of characters, an underscore for any one character, a backslash
  makes the character after it stand for itself, and any other character stands for
  itself. A pattern that ends in a backslash with nothing after it makes the database
  raise an error when the match gets there; here it matches nothing, and
  \<open>danglingEscape\<close> recognises such patterns (the patterns of the handler end in the
  percent sign the filter appends, and are never of this kind).
\<close>

definition likeMeta :: "char \<Rightarrow> bool" where
  "likeMeta c = (c = CHR ''%'' \<or> c = CHR ''_'' \<or> c = CHR 0x5C)"

fun likeMatch :: "string \<Rightarrow> string \<Rightarrow> bool" where
  "likeMatch [] s = (s = [])"
| "likeMatch (p # ps) [] = (p = CHR ''%'' \<and> likeMatch ps [])"
| "likeMatch (p # ps) (c # cs) =
     (if p = CHR 0x5C then (case ps of [] \<Rightarrow> False | q # qs \<Rightarrow> c = q \<and> likeMatch qs cs)
      else if p = CHR ''%'' then (likeMatch ps (c # cs) \<or> likeMatch (p # ps) cs)
      else if p = CHR ''_'' then likeMatch ps cs
      else c = p \<and> likeMatch ps cs)"

fun danglingEscape :: "string \<Rightarrow> bool" where
  "danglingEscape [] = False"
| "danglingEscape (p # ps) =
     (if p = CHR 0x5C then (case ps of [] \<Rightarrow> True | q # qs \<Rightarrow> danglingEscape qs)
      else danglingEscape ps)"

text \<open>The pattern of a \<^verbatim>\<open>contains\<close> filter.\<close>

definition likePattern :: "string \<Rightarrow> string" where
  "likePattern needle = CHR ''%'' # needle @ ''%''"

text \<open>
  \<^verbatim>\<open>ILIKE\<close>: the \<^verbatim>\<open>LIKE\<close> match of the lowercased string against the lowercased
  pattern.
\<close>

definition ilike :: "string \<Rightarrow> string \<Rightarrow> bool" where
  "ilike s pattern = likeMatch (toLowerCase pattern) (toLowerCase s)"

definition containsInsensitive :: "string \<Rightarrow> string \<Rightarrow> bool" where
  "containsInsensitive hay needle = ilike hay (likePattern needle)"

text \<open>\<^verbatim>\<open>batchNumbers: {has: needle}\<close>\<close>

definition hasBatch :: "string \<Rightarrow> alert \<Rightarrow> bool" where
  "hasBatch needle a = (needle \<in> set (batchNumbers a))"

definition titleContains :: "string \<Rightarrow> alert \<Rightarrow> bool" where
  "titleContains needle a = containsInsensitive (title a) needle"

definition contentContains :: "string \<Rightarrow> alert \<Rightarrow> bool" where
  "contentContains needle a =
     (case cleanContent a of None \<Rightarrow> False | Some c \<Rightarrow> containsInsensitive c needle)"

text \<open>The template literal of \<^verbatim>\<open>searchText\<close>, lowercased and trimmed.\<close>

definition searchText :: "clean_body \<Rightarrow> string \<Rightarrow> string" where
  "searchText b ocrText =
     trim (toLowerCase ([CHR 0x0A] @ ''      '' @ cleanName b @ '' '' @ cleanDescription b @ '' ''
                        @ orEmpty (cleanBatch b) @ '' '' @ ocrText @ [CHR 0x0A] @ ''    ''))"

text \<open>The conditions under which each strategy runs, and what it asks for.\<close>

definition batchGuard :: "clean_body \<Rightarrow> bool" where
  "batchGuard b = truthyOpt (cleanBatch b)"

definition batchNeedle :: "clean_body \<Rightarrow> string" where
  "batchNeedle b = toUpperCase (orEmpty (cleanBatch b))"

definition titleGuard :: "clean_body \<Rightarrow> bool" where
  "titleGuard b = (truthy (cleanName b) \<and> length (cleanName b) > 3)"

definition titleNeedle :: "clean_body \<Rightarrow> string" where
  "titleNeedle b = toLowerCase (cleanName b)"

definition contentGuard :: "string \<Rightarrow> bool" where
  "contentGuard text = (truthy text \<and> length text > 5)"

definition contentNeedle :: "string \<Rightarrow> string" where
  "contentNeedle text = toLowerCase (firstToken text)"

text \<open>
  The rows each strategy contributes (\<^verbatim>\<open>batchMatches\<close>, \<^verbatim>\<open>productMatches\<close>,
  \<^verbatim>\<open>contentMatches\<close>) and their concatenation \<^verbatim>\<open>allMatches\<close>, as functions of the
  request and the alert table.
\<close>

definition batchMatches :: "clean_body \<Rightarrow> alert list \<Rightarrow> alert list" where
  "batchMatches b table =
     (if batchGuard b then findMany (hasBatch (batchNeedle b)) table else [])"

definition productMatches :: "clean_body \<Rightarrow> alert list \<Rightarrow> alert list" where
  "productMatches b table =
     (if titleGuard b then findMany (titleContains (titleNeedle b)) table else [])"

definition contentMatches :: "string \<Rightarrow> alert list \<Rightarrow> alert list" where
  "contentMatches text table =
     (if contentGuard text then findMany (contentContains (contentNeedle text)) table else [])"

definition allMatches :: "clean_body \<Rightarrow> string \<Rightarrow> alert list \<Rightarrow> alert list" where
  "allMatches b text table =
     batchMatches b table @ productMatches b table @ contentMatches text table"

text \<open>The query calls a request issues when none of them throws.\<close>

definition issuedQueries :: "clean_body \<Rightarrow> string \<Rightarrow> call list" where
  "issuedQueries b text =
     (if batchGuard b then [BatchQuery (batchNeedle b)] else []) @
     (if titleGuard b then [TitleQuery (titleNeedle b)] else []) @
     (if contentGuard text then [ContentQuery (contentNeedle text)] else [])"

text \<open>
  One guarded query: when the guard holds the call is logged and either throws or
  returns its rows; when it does not hold nothing is called and the list is empty.
\<close>

definition guardedQuery ::
  "bool \<Rightarrow> call \<Rightarrow> db_op \<Rightarrow> (alert \<Rightarrow> bool) \<Rightarrow> env \<Rightarrow> world \<Rightarrow> world \<times> (exn + alert list)" where
  "guardedQuery guard c op matches e w =
     (if guard
      then (let w' = w\<lparr>calls := calls w @ [c]\<rparr>
            in if dbFails e op then (w', Inl (DbError op))
               else (w', Inr (findMany matches (alerts w))))
      else (w, Inr []))"

text \<open>Strategies 1 to 3 in sequence, and \<^verbatim>\<open>allMatches\<close>.\<close>

definition searchAlerts :: "env \<Rightarrow> clean_body \<Rightarrow> string \<Rightarrow> world \<Rightarrow> world \<times> (exn + alert list)" where
  "searchAlerts e b text w =
     (case guardedQuery (batchGuard b) (BatchQuery (batchNeedle b)) AlertFindManyBatch
             (hasBatch (batchNeedle b)) e w of
        (w1, Inl x) \<Rightarrow> (w1, Inl x)
      | (w1, Inr rows1) \<Rightarrow>
     (case guardedQuery (titleGuard b) (TitleQuery (titleNeedle b)) AlertFindManyTitle
             (titleContains (titleNeedle b)) e w1 of
        (w2, Inl x) \<Rightarrow> (w2, Inl x)
      | (w2, Inr rows2) \<Rightarrow>
     (case guardedQuery (contentGuard text) (ContentQuery (contentNeedle text)) AlertFindManyContent
             (contentContains (contentNeedle text)) e w2 of
        (w3, Inl x) \<Rightarrow> (w3, Inl x)
      | (w3, Inr rows3) \<Rightarrow>
          (w3, Inr (rows1 @ rows2 @ rows3)))))"

subsection \<open>Decision logic\<close>

definition unsafeSummary :: "string \<Rightarrow> string" where
  "unsafeSummary details =
     ''FAKE/RECALL/EXPIRED PRODUCT DETECTED: Alerts found in NAFDAC database for this product. Kindly do further research before consuming.''
     @ [CHR 0x0A, CHR 0x0A] @ ''### Reason:'' @ [CHR 0x0A, CHR 0x0A] @ details"

definition noAlertSummary :: string where
  "noAlertSummary =
     ''SAFE PRODUCT: No alerts found in NAFDAC database for this product. Kindly do further research before consuming.''"

text \<open>\<^verbatim>\<open>alert.cleanContent || alert.title\<close>\<close>

definition contentOrTitle :: "alert \<Rightarrow> string" where
  "contentOrTitle a = (if truthyOpt (cleanContent a) then orEmpty (cleanContent a) else title a)"

text \<open>\<^verbatim>\<open>Math.min(95, 70 + (matchingAlerts.length * 5))\<close>\<close>

definition matchConfidence :: "int \<Rightarrow> int" where
  "matchConfidence n = min 95 (70 + n * 5)"

text \<open>The block from \<^verbatim>\<open>let isCounterfeit = false\<close> to the construction of \<^verbatim>\<open>result\<close>.\<close>

definition decide :: "alert list \<Rightarrow> result" where
  "decide matchingAlerts =
     (case matchingAlerts of
        first # others \<Rightarrow>
          (let details = join [CHR 0x0A, CHR 0x0A] (map contentOrTitle matchingAlerts);
               joined = join '', '' (batchNumbers first)
           in \<lparr>isCounterfeit = True,
               summary = unsafeSummary details,
               sourceUrl = url first,
               source = ''NAFDAC Database Check'',
               batchNumber = (if truthy joined then Some joined else None),
               resultAlertType = alertType first,
               confidence = matchConfidence (int (length matchingAlerts)),
               detectedAlertDetails = Some details,
               alertsFound = int (length matchingAlerts)\<rparr>)
      | [] \<Rightarrow>
          \<lparr>isCounterfeit = False,
           summary = noAlertSummary,
           sourceUrl = defaultSourceUrl,
           source = ''NAFDAC Database Check'',
           batchNumber = None,
           resultAlertType = ''No Alert'',
           confidence = 100,
           detectedAlertDetails = None,
           alertsFound = 0\<rparr>)"

text \<open>
  Stage 3: for a confidence strictly between 10 and 70 the ensemble analysis is called,
  and may force the confidence to 0.
\<close>

definition lowConfidence :: "result \<Rightarrow> bool" where
  "lowConfidence r = (confidence r > 10 \<and> confidence r < 70)"

definition ensembleStage :: "env \<Rightarrow> result \<Rightarrow> world \<Rightarrow> world \<times> (exn + result)" where
  "ensembleStage e r w =
     (if lowConfidence r
      then (let w' = w\<lparr>calls := calls w @ [EnsembleAnalysis]\<rparr>
            in case ensembleOutcome e of
                 None \<Rightarrow> (w', Inl EnsembleError)
               | Some ens \<Rightarrow>
                   if ensembleConfidence ens > 75 \<and> \<not> ensembleIsCounterfeit ens
                   then (if confidence r < 40 then (w', Inr (r\<lparr>confidence := 0\<rparr>))
                         else (w', Inr r))
                   else (w', Inr r))
      else (w, Inr r))"

subsection \<open>Database writes and the response\<close>

text \<open>\<^verbatim>\<open>prisma.user.update\<close> with \<^verbatim>\<open>pointsBalance: {decrement: 1}\<close>\<close>

definition deductPoint :: "env \<Rightarrow> string \<Rightarrow> world \<Rightarrow> world \<times> (exn + unit)" where
  "deductPoint e uid w =
     (if dbFails e UserUpdate then (w, Inl (DbError UserUpdate))
      else case users w uid of
             None \<Rightarrow> (w, Inl (DbError UserUpdate))
           | Some row \<Rightarrow>
               (w\<lparr>users := (users w)(uid \<mapsto> row\<lparr>pointsBalance := pointsBalance row - 1\<rparr>)\<rparr>, Inr ()))"

definition saveProductCheck ::
  "env \<Rightarrow> string \<Rightarrow> clean_body \<Rightarrow> world \<Rightarrow> world \<times> (exn + string)" where
  "saveProductCheck e uid b w =
     (if dbFails e ProductCheckCreate then (w, Inl (DbError ProductCheckCreate))
      else (w\<lparr>productChecks := productChecks w @
                [\<lparr>checkId = newCheckId e, checkUserId = uid, checkProductName = cleanName b,
                  checkProductDescription = cleanDescription b,
                  checkImages = (case cleanImages b of None \<Rightarrow> [] | Some xs \<Rightarrow> xs),
                  pointsUsed = 1\<rparr>]\<rparr>,
            Inr (newCheckId e)))"

definition saveCheckResult :: "env \<Rightarrow> check_result \<Rightarrow> world \<Rightarrow> world \<times> (exn + unit)" where
  "saveCheckResult e cr w =
     (if dbFails e CheckResultCreate then (w, Inl (DbError CheckResultCreate))
      else (w\<lparr>checkResults := checkResults w @ [cr]\<rparr>, Inr ()))"

text \<open>
  From \<^verbatim>\<open>Deduct 1 point for the scan FIRST\<close> to the end of the \<^verbatim>\<open>try\<close> block;
  \<open>user\<close> is the row read in step 4.
\<close>

definition respond ::
  "env \<Rightarrow> string \<Rightarrow> user_row \<Rightarrow> clean_body \<Rightarrow> result \<Rightarrow> world \<Rightarrow> world \<times> (exn + response)" where
  "respond e uid user b r w =
     (case deductPoint e uid w of
        (w1, Inl x) \<Rightarrow> (w1, Inl x)
      | (w1, Inr u) \<Rightarrow>
     (case saveProductCheck e uid b w1 of
        (w2, Inl x) \<Rightarrow> (w2, Inl x)
      | (w2, Inr savedId) \<Rightarrow>
          if confidence r = 0
          then (case saveCheckResult e
                       \<lparr>crUserId = uid, crProductCheckId = savedId, crIsCounterfeit = False,
                        crSummary = safeSummary, crSourceUrl = defaultSourceUrl,
                        crSource = ''NAFDAC Database Check'', crBatchNumber = None,
                        crAlertType = ''No Alert'', crConfidence = 0\<rparr> w2 of
                  (w3, Inl x) \<Rightarrow> (w3, Inl x)
                | (w3, Inr u') \<Rightarrow> (w3, Inr (SafeJson savedId (pointsBalance user - 1))))
          else (case saveCheckResult e
                       \<lparr>crUserId = uid, crProductCheckId = savedId,
                        crIsCounterfeit = isCounterfeit r, crSummary = summary r,
                        crSourceUrl = sourceUrl r, crSource = source r,
                        crBatchNumber = batchNumber r, crAlertType = resultAlertType r,
                        crConfidence = confidence r\<rparr> w2 of
                  (w3, Inl x) \<Rightarrow> (w3, Inl x)
                | (w3, Inr u') \<Rightarrow> (w3, Inr (ResultJson savedId r (pointsBalance user - 1))))))"

subsection \<open>The handler\<close>

text \<open>Step 2: parsing, validation and sanitisation; \<open>Inl\<close> is the early response.\<close>

definition parseBody :: "request_json \<Rightarrow> response + clean_body" where
  "parseBody j =
     (case j of
        Unparsable \<Rightarrow> Inl (ErrorJson 400 ''Invalid request format'')
      | NotAnObject \<Rightarrow> Inl (ErrorJson 400 ''Invalid input'')
      | Object b \<Rightarrow>
          if verifyProductSchema b then Inr (sanitizeBody b)
          else Inl (ErrorJson 400 ''Invalid input''))"

text \<open>
  Step 4: the user row is read, created with 5 points when it is missing and the session
  has an e-mail address, and checked for a balance of at least 1. A database error in
  this step is answered with status 503.
\<close>

definition validateUser :: "env \<Rightarrow> session_user \<Rightarrow> world \<Rightarrow> world \<times> (response + user_row)" where
  "validateUser e su w =
     (if dbFails e UserFindUnique then (w, Inl (ErrorJson 503 ''Service temporarily unavailable''))
      else case users w (sessionUserId su) of
             Some user \<Rightarrow>
               if pointsBalance user < 1 then (w, Inl (ErrorJson 400 ''Insufficient points''))
               else (w, Inr user)
           | None \<Rightarrow>
               if truthyOpt (sessionEmail su)
               then (if dbFails e UserCreate
                     then (w, Inl (ErrorJson 503 ''Service temporarily unavailable''))
                     else (let user = \<lparr>pointsBalance = 5, userEmail = orEmpty (sessionEmail su),
                                        userName = (if truthyOpt (sessionName su)
                                                    then orEmpty (sessionName su) else ''Unknown'')\<rparr>;
                               w' = w\<lparr>users := (users w)(sessionUserId su \<mapsto> user)\<rparr>
                           in if pointsBalance user < 1
                              then (w', Inl (ErrorJson 400 ''Insufficient points''))
                              else (w', Inr user)))
               else (w, Inl (ErrorJson 400 ''Insufficient points'')))"

text \<open>The OCR step: the service is asked only when there is at least one image.\<close>

definition hasImages :: "clean_body \<Rightarrow> bool" where
  "hasImages b = (case cleanImages b of None \<Rightarrow> False | Some imgs \<Rightarrow> length imgs > 0)"

definition extractOcr :: "env \<Rightarrow> clean_body \<Rightarrow> world \<Rightarrow> world \<times> string" where
  "extractOcr e b w =
     (if hasImages b then (w\<lparr>calls := calls w @ [OcrFetch]\<rparr>, ocrResult e) else (w, []))"

text \<open>\<^verbatim>\<open>matchingAlerts\<close> as the handler computes it from the rows the queries return.\<close>

definition matchingAlerts :: "alert list \<Rightarrow> alert list" where
  "matchingAlerts rows = uniqueAlerts rows"

text \<open>The text the OCR step leaves in \<^verbatim>\<open>ocrText\<close>, and the alerts a request finds.\<close>

definition ocrTextOf :: "env \<Rightarrow> clean_body \<Rightarrow> string" where
  "ocrTextOf e b = (if hasImages b then ocrResult e else [])"

definition foundAlerts :: "env \<Rightarrow> clean_body \<Rightarrow> alert list \<Rightarrow> alert list" where
  "foundAlerts e b table = matchingAlerts (allMatches b (searchText b (ocrTextOf e b)) table)"

text \<open>From the construction of the service object to the end of the \<^verbatim>\<open>try\<close> block.\<close>

definition verify ::
  "env \<Rightarrow> session_user \<Rightarrow> user_row \<Rightarrow> clean_body \<Rightarrow> world \<Rightarrow> world \<times> (exn + response)" where
  "verify e su user b w =
     (if serviceFails e then (w, Inl ServiceError)
      else case extractOcr e b w of (w1, ocrText) \<Rightarrow>
     (case searchAlerts e b (searchText b ocrText) w1 of
        (w2, Inl x) \<Rightarrow> (w2, Inl x)
      | (w2, Inr rows) \<Rightarrow>
     (case ensembleStage e (decide (matchingAlerts rows)) w2 of
        (w3, Inl x) \<Rightarrow> (w3, Inl x)
      | (w3, Inr r) \<Rightarrow> respond e (sessionUserId su) user b r w3)))"

text \<open>The body of the outer \<^verbatim>\<open>try\<close>: \<open>Inl\<close> is an error thrown out of it.\<close>

definition handle :: "env \<Rightarrow> world \<Rightarrow> world \<times> (exn + response)" where
  "handle e w =
     (case checkRateLimit (rateLimitStore w) (now e) (clientIP e) of (isAllowed, store') \<Rightarrow>
     (let w0 = w\<lparr>rateLimitStore := store'\<rparr>
      in if \<not> isAllowed then (w0, Inr (ErrorJson 429 ''Too many requests''))
         else case parseBody (json e) of
                Inl early \<Rightarrow> (w0, Inr early)
              | Inr b \<Rightarrow>
         (case authOutcome e of
            AuthRejected \<Rightarrow> (w0, Inl AuthError)
          | NoSession \<Rightarrow> (w0, Inr (ErrorJson 401 ''Authentication required''))
          | Session su \<Rightarrow>
         (case validateUser e su w0 of
            (w1, Inl early) \<Rightarrow> (w1, Inr early)
          | (w1, Inr user) \<Rightarrow>
              if \<not> truthy (cleanName b) \<or> \<not> truthy (cleanDescription b)
              then (w1, Inr (ErrorJson 400
                      ''Missing product information - name and description required''))
              else verify e su user b w1))))"

text \<open>\<^verbatim>\<open>POST\<close>: the \<^verbatim>\<open>try\<close> block with its \<^verbatim>\<open>catch\<close>.\<close>

definition POST :: "env \<Rightarrow> world \<Rightarrow> world \<times> response" where
  "POST e w =
     (case handle e w of
        (w', Inl error) \<Rightarrow> (w', ErrorJson 500 ''Verification failed'')
      | (w', Inr response) \<Rightarrow> (w', response))"

subsection \<open>Concrete alerts, requests and stores\<close>

text \<open>Alert rows, a table holding two of them, and requests against it.\<close>

definition aspirinAlert :: alert where
  "aspirinAlert =
     \<lparr>alertId = ''a1'', title = ''Aspirin 500mg recall'',
      cleanContent = Some ''Counterfeit aspirin tablets found in circulation'',
      url = ''https://nafdac.gov.ng/a1'', batchNumbers = [''B123''], manufacturer = None,
      alertType = ''Recall'', severity = ''high'', scrapedAt = 1000, active = True\<rparr>"

definition syrupAlert :: alert where
  "syrupAlert =
     \<lparr>alertId = ''a2'', title = ''Falsified cough syrup'',
      cleanContent = Some ''Falsified syrup sold with aspirin packs'',
      url = ''https://nafdac.gov.ng/a2'', batchNumbers = [''B123'', ''X9''], manufacturer = None,
      alertType = ''Falsified'', severity = ''high'', scrapedAt = 2000, active = True\<rparr>"

definition vitaminAlert :: alert where
  "vitaminAlert =
     \<lparr>alertId = ''a3'', title = ''Unregistered vitamin C'',
      cleanContent = Some ''Unregistered vitamin C tablets on sale'',
      url = ''https://nafdac.gov.ng/a3'', batchNumbers = [], manufacturer = None,
      alertType = ''Unregistered'', severity = ''low'', scrapedAt = 3000, active = True\<rparr>"

definition alertTable :: "alert list" where
  "alertTable = [aspirinAlert, syrupAlert]"

definition noFailure :: "db_op \<Rightarrow> bool" where
  "noFailure op = False"

definition aspirinBody :: body where
  "aspirinBody =
     \<lparr>productName = Given ''Aspirin'', productDescription = Given ''pain relief tablets'',
      userBatchNumber = Missing, images = Missing\<rparr>"

definition vitaminBody :: body where
  "vitaminBody =
     \<lparr>productName = Given ''Zinc'', productDescription = Given ''mineral supplement'',
      userBatchNumber = Given ''Q7'', images = Missing\<rparr>"

text \<open>A request whose product name has an underscore in it.\<close>

definition wildcardBody :: body where
  "wildcardBody =
     \<lparr>productName = Given ''asp_rin'', productDescription = Given ''pain relief tablets'',
      userBatchNumber = Missing, images = Missing\<rparr>"

definition someUser :: session_user where
  "someUser = \<lparr>sessionUserId = ''u1'', sessionEmail = Some ''u1@example.org'', sessionName = None\<rparr>"

definition aspirinEnv :: env where
  "aspirinEnv =
     \<lparr>now = 5000, forwardedFor = Some ''10.0.0.1'', realIp = None, requestIp = None,
      json = Object aspirinBody, authOutcome = Session someUser, dbFails = noFailure,
      serviceFails = False, ocrResult = [], ensembleOutcome = None, newCheckId = ''pc1''\<rparr>"

definition vitaminEnv :: env where
  "vitaminEnv = aspirinEnv\<lparr>json := Object vitaminBody\<rparr>"

definition emptyStore :: rate_store where
  "emptyStore = Map.empty"

definition userTable :: "int \<Rightarrow> string \<rightharpoonup> user_row" where
  "userTable balance =
     Map.empty(''u1'' \<mapsto> \<lparr>pointsBalance = balance, userEmail = ''u1@example.org'', userName = ''U''\<rparr>)"

definition someWorld :: "int \<Rightarrow> world" where
  "someWorld balance =
     \<lparr>rateLimitStore = emptyStore, users = userTable balance, alerts = alertTable,
      productChecks = [], checkResults = [], calls = []\<rparr>"

text \<open>
  The number of accepted arrivals of an address whose clock reading lies in the interval
  from \<open>start\<close> (included) to \<open>stop\<close> (excluded).
\<close>

definition acceptedWithin :: "string \<Rightarrow> rate_store \<Rightarrow> (int \<times> string) list \<Rightarrow> int \<Rightarrow> int \<Rightarrow> nat" where
  "acceptedWithin ip store reqs start stop =
     length (filter (\<lambda>(t, a). start \<le> t \<and> t < stop) (acceptedFor ip store reqs))"

text \<open>
  Arrivals from one address: one at time 0, nine at 59 s and ten just after the first
  window has ended.
\<close>

definition burstArrivals :: "(int \<times> string) list" where
  "burstArrivals =
     (0, ''10.0.0.1'') # replicate 9 (59000, ''10.0.0.1'') @ replicate 10 (60001, ''10.0.0.1'')"

text \<open>A store in which the address has used up its window.\<close>

definition fullStore :: rate_store where
  "fullStore = Map.empty(''10.0.0.1'' \<mapsto> \<lparr>count = 10, resetTime = 60000\<rparr>)"

section \<open>Properties\<close>

subsection \<open>Deduplication\<close>

lemma findIndex_ge: "findIndex P xs \<ge> -1"
  by (induction xs) (auto simp: Let_def)

lemma findIndex_eq_iff:
  "findIndex P xs = int i \<longleftrightarrow> i < length xs \<and> P (xs ! i) \<and> (\<forall>j<i. \<not> P (xs ! j))"
proof (induction xs arbitrary: i)
  case Nil
  then show ?case by simp
next
  case (Cons x xs)
  show ?case
  proof (cases "P x")
    case True
    then show ?thesis by (cases i) auto
  next
    case False
    show ?thesis
    proof (cases i)
      case 0
      with False findIndex_ge[of P xs] show ?thesis by (auto simp: Let_def)
    next
      case (Suc k)
      have "findIndex P (x # xs) = int (Suc k) \<longleftrightarrow> findIndex P xs = int k"
        using False findIndex_ge[of P xs] by (auto simp: Let_def)
      also have "\<dots> \<longleftrightarrow> k < length xs \<and> P (xs ! k) \<and> (\<forall>j<k. \<not> P (xs ! j))"
        by (rule Cons.IH)
      also have "\<dots> \<longleftrightarrow> Suc k < length (x # xs) \<and> P ((x # xs) ! Suc k) \<and> (\<forall>j<Suc k. \<not> P ((x # xs) ! j))"
        using False by (auto simp: less_Suc_eq_0_disj)
      finally show ?thesis using Suc by simp
    qed
  qed
qed

lemma dedupById_positions:
  "dedupById xs =
     map ((!) xs) (filter (\<lambda>i. \<forall>j<i. alertId (xs ! j) \<noteq> alertId (xs ! i)) [0..<length xs])"
proof -
  have e: "enumerate 0 xs = map (\<lambda>i. (i, xs ! i)) [0..<length xs]"
    by (rule nth_equalityI) (auto simp: nth_enumerate_eq)
  have f: "filter (\<lambda>i. int i = findIndex (\<lambda>b. alertId b = alertId (xs ! i)) xs) [0..<length xs] =
           filter (\<lambda>i. \<forall>j<i. alertId (xs ! j) \<noteq> alertId (xs ! i)) [0..<length xs]"
  proof (rule filter_cong[OF refl])
    fix i assume "i \<in> set [0..<length xs]"
    then have "i < length xs" by simp
    have "(int i = findIndex (\<lambda>b. alertId b = alertId (xs ! i)) xs) \<longleftrightarrow>
          (findIndex (\<lambda>b. alertId b = alertId (xs ! i)) xs = int i)"
      by (rule eq_commute)
    also have "\<dots> \<longleftrightarrow> (\<forall>j<i. alertId (xs ! j) \<noteq> alertId (xs ! i))"
      using \<open>i < length xs\<close> by (simp add: findIndex_eq_iff)
    finally show "(int i = findIndex (\<lambda>b. alertId b = alertId (xs ! i)) xs) \<longleftrightarrow>
                  (\<forall>j<i. alertId (xs ! j) \<noteq> alertId (xs ! i))" .
  qed
  have "dedupById xs =
          map ((!) xs) (filter (\<lambda>i. int i = findIndex (\<lambda>b. alertId b = alertId (xs ! i)) xs)
                          [0..<length xs])"
    unfolding dedupById_def e filter_map by (simp add: comp_def)
  then show ?thesis by (simp only: f)
qed

lemma filter_enumerate_Suc:
  "map snd (filter (\<lambda>(i, a). Q i a) (enumerate (Suc n) xs)) =
   map snd (filter (\<lambda>(i, a). Q (Suc i) a) (enumerate n xs))"
  by (induction xs arbitrary: n) auto

lemma findIndex_Cons_Suc:
  "(int (Suc i) = findIndex P (x # xs)) \<longleftrightarrow> (\<not> P x \<and> int i = findIndex P xs)"
  using findIndex_ge[of P xs] by (auto simp: Let_def)

lemma dedupById_Nil: "dedupById [] = []"
  by (simp add: dedupById_def)

lemma dedupById_Cons:
  "dedupById (x # xs) = x # filter (\<lambda>a. alertId a \<noteq> alertId x) (dedupById xs)"
proof -
  have "map snd (filter (\<lambda>(i, a). int i = findIndex (\<lambda>b. alertId b = alertId a) (x # xs))
                  (enumerate (Suc 0) xs)) =
        map snd (filter (\<lambda>(i, a). alertId x \<noteq> alertId a \<and>
                    int i = findIndex (\<lambda>b. alertId b = alertId a) xs) (enumerate 0 xs))"
    by (simp only: filter_enumerate_Suc findIndex_Cons_Suc)
  also have "\<dots> = filter (\<lambda>a. alertId a \<noteq> alertId x) (dedupById xs)"
    unfolding dedupById_def filter_map filter_filter
    by (rule arg_cong[where f="map snd"], rule filter_cong[OF refl]) auto
  finally have tl: "map snd (filter (\<lambda>(i, a). int i = findIndex (\<lambda>b. alertId b = alertId a) (x # xs))
                  (enumerate (Suc 0) xs)) = filter (\<lambda>a. alertId a \<noteq> alertId x) (dedupById xs)" .
  have "dedupById (x # xs) =
          x # map snd (filter (\<lambda>(i, a). int i = findIndex (\<lambda>b. alertId b = alertId a) (x # xs))
                  (enumerate (Suc 0) xs))"
    unfolding dedupById_def by simp
  then show ?thesis by (simp only: tl)
qed

lemma dedupById_firstOccurrences_gen:
  "firstOccurrences seen xs = filter (\<lambda>a. alertId a \<notin> set seen) (dedupById xs)"
proof (induction xs arbitrary: seen)
  case Nil
  then show ?case by (simp add: dedupById_Nil)
next
  case (Cons x xs)
  show ?case
  proof (cases "alertId x \<in> set seen")
    case True
    have "filter (\<lambda>a. alertId a \<notin> set seen) (filter (\<lambda>a. alertId a \<noteq> alertId x) (dedupById xs)) =
          filter (\<lambda>a. alertId a \<notin> set seen) (dedupById xs)"
      unfolding filter_filter using True by (intro filter_cong[OF refl]) auto
    with True show ?thesis by (simp add: Cons.IH dedupById_Cons)
  next
    case False
    have "filter (\<lambda>a. alertId a \<notin> set seen) (filter (\<lambda>a. alertId a \<noteq> alertId x) (dedupById xs)) =
          filter (\<lambda>a. alertId a \<notin> set (alertId x # seen)) (dedupById xs)"
      unfolding filter_filter by (intro filter_cong[OF refl]) auto
    with False show ?thesis by (simp add: Cons.IH dedupById_Cons)
  qed
qed

lemma dedupById_append:
  "dedupById (xs @ ys) =
     dedupById xs @ filter (\<lambda>a. alertId a \<notin> alertId ` set xs) (dedupById ys)"
proof (induction xs)
  case Nil
  then show ?case by (simp add: dedupById_Nil)
next
  case (Cons x xs)
  have "filter (\<lambda>a. alertId a \<noteq> alertId x) (filter (\<lambda>a. alertId a \<notin> alertId ` set xs) (dedupById ys)) =
        filter (\<lambda>a. alertId a \<notin> alertId ` set (x # xs)) (dedupById ys)"
    unfolding filter_filter by (intro filter_cong[OF refl]) auto
  then show ?case by (simp add: dedupById_Cons Cons.IH)
qed

lemma set_dedupById: "set (dedupById xs) \<subseteq> set xs"
  by (induction xs) (auto simp: dedupById_Cons dedupById_Nil)

lemma ids_dedupById: "alertId ` set (dedupById xs) = alertId ` set xs"
proof (induction xs)
  case Nil
  then show ?case by (simp add: dedupById_Nil)
next
  case (Cons x xs)
  have "alertId ` {a \<in> set (dedupById xs). alertId a \<noteq> alertId x} =
        alertId ` set (dedupById xs) - {alertId x}"
    by auto
  then show ?case by (simp add: dedupById_Cons Cons.IH)
qed

lemma distinct_dedupById: "distinct (map alertId (dedupById xs))"
  by (induction xs) (auto simp: dedupById_Cons dedupById_Nil distinct_map_filter)

lemma subseq_dedupById: "subseq (dedupById xs) xs"
proof (induction xs)
  case Nil
  then show ?case by (simp add: dedupById_Nil)
next
  case (Cons x xs)
  have "subseq (filter (\<lambda>a. alertId a \<noteq> alertId x) (dedupById xs)) (dedupById xs)"
    by simp
  then have "subseq (filter (\<lambda>a. alertId a \<noteq> alertId x) (dedupById xs)) xs"
    using Cons.IH by (rule subseq_order.trans)
  then show ?case
    by (simp add: dedupById_Cons)
qed

lemma dedupById_empty_iff: "dedupById xs = [] \<longleftrightarrow> xs = []"
  by (cases xs) (simp_all add: dedupById_Cons dedupById_Nil)

lemma find_dedupById:
  "a \<in> set (dedupById xs) \<Longrightarrow> find (\<lambda>b. alertId b = alertId a) xs = Some a"
  by (induction xs) (auto simp: dedupById_Cons dedupById_Nil)

subsection \<open>The decision\<close>

lemma matchConfidence_values:
  assumes "n \<ge> 1"
  shows "matchConfidence n \<in> {75, 80, 85, 90, 95}"
proof -
  from assms consider "n = 1" | "n = 2" | "n = 3" | "n = 4" | "n \<ge> 5" by linarith
  then show ?thesis by cases (auto simp: matchConfidence_def)
qed

lemma confidence_decide:
  "confidence (decide ms) = (if ms = [] then 100 else matchConfidence (int (length ms)))"
  by (cases ms) (simp_all add: decide_def Let_def)

lemma isCounterfeit_decide: "isCounterfeit (decide ms) = (ms \<noteq> [])"
  by (cases ms) (simp_all add: decide_def Let_def)

lemma alertsFound_decide: "alertsFound (decide ms) = int (length ms)"
  by (cases ms) (simp_all add: decide_def Let_def)

lemma summary_decide_Nil: "summary (decide []) = noAlertSummary"
  by (simp add: decide_def)

lemma confidence_decide_range:
  "confidence (decide ms) \<in> {75, 80, 85, 90, 95, 100}"
proof (cases "ms = []")
  case True
  then show ?thesis by (simp add: confidence_decide)
next
  case False
  then have "int (length ms) \<ge> 1" by (cases ms) simp_all
  from matchConfidence_values[OF this] False show ?thesis
    by (auto simp: confidence_decide)
qed

lemma not_lowConfidence_decide: "\<not> lowConfidence (decide ms)"
  using confidence_decide_range[of ms] by (auto simp: lowConfidence_def)

lemma confidence_decide_nonzero: "confidence (decide ms) \<noteq> 0"
  using confidence_decide_range[of ms] by auto

subsection \<open>The rate limiter\<close>

lemma checkRateLimit_bounded:
  assumes "\<forall>a en. store a = Some en \<longrightarrow> 1 \<le> count en \<and> count en \<le> RATE_LIMIT_MAX_REQUESTS"
  shows "\<forall>a en. snd (checkRateLimit store t ip) a = Some en \<longrightarrow>
           1 \<le> count en \<and> count en \<le> RATE_LIMIT_MAX_REQUESTS"
proof (cases "store ip")
  case None
  with assms show ?thesis
    by (auto simp: checkRateLimit_def RATE_LIMIT_MAX_REQUESTS_def)
next
  case (Some userLimit)
  with assms have "1 \<le> count userLimit" by blast
  then have "0 \<le> count userLimit" by simp
  with assms Some show ?thesis
    by (auto simp: checkRateLimit_def RATE_LIMIT_MAX_REQUESTS_def)
qed

lemma runLimiter_bounded:
  assumes "\<forall>a en. store a = Some en \<longrightarrow> 1 \<le> count en \<and> count en \<le> RATE_LIMIT_MAX_REQUESTS"
  shows "\<forall>a en. snd (runLimiter store reqs) a = Some en \<longrightarrow>
           1 \<le> count en \<and> count en \<le> RATE_LIMIT_MAX_REQUESTS"
  using assms
proof (induction reqs arbitrary: store)
  case Nil
  then show ?case by simp
next
  case (Cons r reqs)
  obtain t ip where r: "r = (t, ip)" by (cases r)
  have "snd (runLimiter store (r # reqs)) = snd (runLimiter (snd (checkRateLimit store t ip)) reqs)"
    by (simp add: r case_prod_beta Let_def)
  moreover note Cons.IH[OF checkRateLimit_bounded[OF Cons.prems, of t ip]]
  ultimately show ?case by simp
qed

lemma acceptedFor_Nil: "acceptedFor ip store [] = []"
  by (simp add: acceptedFor_def)

lemma acceptedFor_Cons:
  "acceptedFor ip store ((t, a) # rest) =
     (if fst (checkRateLimit store t a) \<and> a = ip then [(t, a)] else []) @
     acceptedFor ip (snd (checkRateLimit store t a)) rest"
  by (auto simp: acceptedFor_def case_prod_beta Let_def)

lemma window_count:
  assumes "store ip = Some en" "count en \<le> RATE_LIMIT_MAX_REQUESTS"
    and "\<forall>(t, a) \<in> set reqs. a = ip \<longrightarrow> t \<le> resetTime en"
  shows "int (length (acceptedFor ip store reqs)) \<le> RATE_LIMIT_MAX_REQUESTS - count en"
  using assms
proof (induction reqs arbitrary: store en)
  case Nil
  then show ?case by (simp add: acceptedFor_Nil)
next
  case (Cons r reqs)
  obtain t a where r: "r = (t, a)" by (cases r)
  from Cons.prems(3) have rest: "\<forall>(t, a) \<in> set reqs. a = ip \<longrightarrow> t \<le> resetTime en"
    by simp
  show ?case
  proof (cases "a = ip")
    case False
    then have same: "snd (checkRateLimit store t a) ip = Some en"
      using Cons.prems(1) by (auto simp: checkRateLimit_def split: option.splits)
    from Cons.IH[of "snd (checkRateLimit store t a)" en, OF same Cons.prems(2) rest] False show ?thesis
      by (simp add: r acceptedFor_Cons)
  next
    case True
    with Cons.prems(3) r have inside: "t \<le> resetTime en" by simp
    show ?thesis
    proof (cases "count en \<ge> RATE_LIMIT_MAX_REQUESTS")
      case full: True
      then have step: "checkRateLimit store t ip = (False, store)"
        using Cons.prems(1) inside True by (simp add: checkRateLimit_def)
      from Cons.IH[of store en, OF Cons.prems(1) Cons.prems(2) rest] True show ?thesis
        by (simp add: r acceptedFor_Cons step)
    next
      case False
      let ?en = "en\<lparr>count := count en + 1\<rparr>"
      have step: "checkRateLimit store t ip = (True, store(ip \<mapsto> ?en))"
        using Cons.prems(1) inside True False by (simp add: checkRateLimit_def)
      have "int (length (acceptedFor ip (store(ip \<mapsto> ?en)) reqs)) \<le>
              RATE_LIMIT_MAX_REQUESTS - count ?en"
        using False rest by (intro Cons.IH[of "store(ip \<mapsto> ?en)" ?en]) auto
      with True show ?thesis
        by (simp add: r acceptedFor_Cons step)
    qed
  qed
qed

subsection \<open>The stages of the handler\<close>

lemma guardedQuery_eq:
  "guardedQuery g c op m e w =
     (w\<lparr>calls := calls w @ (if g then [c] else [])\<rparr>,
      if g \<and> dbFails e op then Inl (DbError op)
      else Inr (if g then findMany m (alerts w) else []))"
  by (simp add: guardedQuery_def Let_def)

lemma searchAlerts_Inr:
  assumes "searchAlerts e b text w = (w', Inr rows)"
  shows "rows = allMatches b text (alerts w) \<and> w' = w\<lparr>calls := calls w @ issuedQueries b text\<rparr>"
  using assms
  by (auto simp: searchAlerts_def guardedQuery_eq allMatches_def batchMatches_def
        productMatches_def contentMatches_def issuedQueries_def split: if_splits)

lemma searchAlerts_calls:
  assumes "searchAlerts e b text w = (w', out)"
  shows "\<exists>cs. w' = w\<lparr>calls := calls w @ cs\<rparr> \<and> prefix cs (issuedQueries b text)"
  using assms
  by (auto simp: searchAlerts_def guardedQuery_eq issuedQueries_def split: if_splits)

lemma ensembleStage_decide: "ensembleStage e (decide ms) w = (w, Inr (decide ms))"
  by (simp add: ensembleStage_def not_lowConfidence_decide)

lemma extractOcr_eq:
  "extractOcr e b w = (w\<lparr>calls := calls w @ (if hasImages b then [OcrFetch] else [])\<rparr>, ocrTextOf e b)"
  by (simp add: extractOcr_def ocrTextOf_def)

lemma respond_Inr:
  assumes "respond e uid user b r w = (w', Inr resp)" "confidence r \<noteq> 0"
  shows "resp = ResultJson (newCheckId e) r (pointsBalance user - 1) \<and>
         (\<exists>row. users w uid = Some row \<and>
            w' = w\<lparr>users := (users w)(uid \<mapsto> row\<lparr>pointsBalance := pointsBalance row - 1\<rparr>),
                   productChecks := productChecks w @
                     [\<lparr>checkId = newCheckId e, checkUserId = uid, checkProductName = cleanName b,
                       checkProductDescription = cleanDescription b,
                       checkImages = (case cleanImages b of None \<Rightarrow> [] | Some xs \<Rightarrow> xs),
                       pointsUsed = 1\<rparr>],
                   checkResults := checkResults w @
                     [\<lparr>crUserId = uid, crProductCheckId = newCheckId e,
                        crIsCounterfeit = isCounterfeit r, crSummary = summary r,
                        crSourceUrl = sourceUrl r, crSource = source r,
                        crBatchNumber = batchNumber r, crAlertType = resultAlertType r,
                        crConfidence = confidence r\<rparr>]\<rparr>)"
  using assms
  by (auto simp: respond_def deductPoint_def saveProductCheck_def saveCheckResult_def
           split: if_splits option.splits)

lemma respond_calls:
  assumes "respond e uid user b r w = (w', out)"
  shows "calls w' = calls w \<and> alerts w' = alerts w \<and> rateLimitStore w' = rateLimitStore w"
  using assms
  by (auto simp: respond_def deductPoint_def saveProductCheck_def saveCheckResult_def
           split: if_splits option.splits)

lemma validateUser_frame:
  assumes "validateUser e su w = (w', out)"
  shows "calls w' = calls w \<and> alerts w' = alerts w \<and> rateLimitStore w' = rateLimitStore w \<and>
         productChecks w' = productChecks w \<and> checkResults w' = checkResults w"
  using assms
  by (auto simp: validateUser_def Let_def split: if_splits option.splits)

lemma validateUser_Inr:
  assumes "validateUser e su w = (w', Inr user)"
  shows "users w' (sessionUserId su) = Some user \<and> 1 \<le> pointsBalance user \<and>
         (case users w (sessionUserId su) of
            Some row \<Rightarrow> w' = w \<and> user = row
          | None \<Rightarrow> pointsBalance user = 5 \<and> w' = w\<lparr>users := (users w)(sessionUserId su \<mapsto> user)\<rparr>)"
  using assms
  by (auto simp: validateUser_def Let_def split: if_splits option.splits)

lemma validateUser_poor:
  assumes "users w (sessionUserId su) = Some row" "pointsBalance row < 1"
  shows "validateUser e su w =
           (w, Inl (if dbFails e UserFindUnique then ErrorJson 503 ''Service temporarily unavailable''
                    else ErrorJson 400 ''Insufficient points''))"
  using assms by (simp add: validateUser_def)

lemma verify_Inr:
  assumes "verify e su user b w = (w', Inr r)"
  shows "\<not> serviceFails e \<and>
         respond e (sessionUserId su) user b (decide (foundAlerts e b (alerts w)))
           (w\<lparr>calls := calls w @ (if hasImages b then [OcrFetch] else []) @
                  issuedQueries b (searchText b (ocrTextOf e b))\<rparr>) = (w', Inr r)"
proof -
  from assms have ns: "\<not> serviceFails e"
    by (auto simp: verify_def split: if_splits)
  let ?w1 = "w\<lparr>calls := calls w @ (if hasImages b then [OcrFetch] else [])\<rparr>"
  let ?text = "searchText b (ocrTextOf e b)"
  obtain w2 out where s: "searchAlerts e b ?text ?w1 = (w2, out)" by (cases "searchAlerts e b ?text ?w1")
  from assms ns s obtain rows where out: "out = Inr rows"
    by (cases out) (auto simp: verify_def extractOcr_eq)
  from searchAlerts_Inr[OF s[unfolded out]]
  have rows: "rows = allMatches b ?text (alerts w)"
    and w2: "w2 = ?w1\<lparr>calls := calls ?w1 @ issuedQueries b ?text\<rparr>" by simp_all
  from assms ns s out
  have "respond e (sessionUserId su) user b (decide (matchingAlerts rows)) w2 = (w', Inr r)"
    by (simp add: verify_def extractOcr_eq ensembleStage_decide)
  then show ?thesis
    using ns by (simp add: rows w2 foundAlerts_def)
qed

lemma parseBody_Inl:
  assumes "parseBody j = Inl r"
  shows "status r = 400"
  using assms by (auto simp: parseBody_def split: request_json.splits if_splits)

lemma validateUser_Inl:
  assumes "validateUser e su w = (w', Inl r)"
  shows "status r = 400 \<or> status r = 503"
  using assms by (auto simp: validateUser_def Let_def split: if_splits option.splits)

lemma POST_200:
  assumes "POST e w = (w', r)" "status r = 200"
  shows "\<exists>b su user w1. parseBody (json e) = Inr b \<and> authOutcome e = Session su \<and>
           fst (checkRateLimit (rateLimitStore w) (now e) (clientIP e)) \<and>
           validateUser e su
             (w\<lparr>rateLimitStore := snd (checkRateLimit (rateLimitStore w) (now e) (clientIP e))\<rparr>)
             = (w1, Inr user) \<and>
           truthy (cleanName b) \<and> truthy (cleanDescription b) \<and>
           verify e su user b w1 = (w', Inr r)"
  using assms
  by (auto simp: POST_def handle_def Let_def
           split: prod.splits sum.splits if_splits auth_outcome.splits
           dest: parseBody_Inl validateUser_Inl)

lemma matchingAlerts_empty_iff: "matchingAlerts rows = [] \<longleftrightarrow> rows = []"
  by (simp add: matchingAlerts_def uniqueAlerts_def dedupById_empty_iff)

lemma POST_response_shape:
  assumes "POST e w = (w', r)"
  shows "(\<exists>st msg. r = ErrorJson st msg \<and> st \<noteq> 200) \<or>
         (\<exists>b bal. parseBody (json e) = Inr b \<and>
            r = ResultJson (newCheckId e) (decide (foundAlerts e b (alerts w))) bal)"
proof (cases "status r = 200")
  case True
  from POST_200[OF assms True] obtain b su user w1 where
    b: "parseBody (json e) = Inr b"
    and vu: "validateUser e su
             (w\<lparr>rateLimitStore := snd (checkRateLimit (rateLimitStore w) (now e) (clientIP e))\<rparr>)
             = (w1, Inr user)"
    and v: "verify e su user b w1 = (w', Inr r)" by blast
  from validateUser_frame[OF vu] have al: "alerts w1 = alerts w" by simp
  from verify_Inr[OF v]
  have resp: "respond e (sessionUserId su) user b (decide (foundAlerts e b (alerts w1)))
           (w1\<lparr>calls := calls w1 @ (if hasImages b then [OcrFetch] else []) @
                  issuedQueries b (searchText b (ocrTextOf e b))\<rparr>) = (w', Inr r)"
    by simp
  from respond_Inr[OF resp confidence_decide_nonzero]
  have "r = ResultJson (newCheckId e) (decide (foundAlerts e b (alerts w1))) (pointsBalance user - 1)"
    by simp
  with b al show ?thesis by auto
next
  case False
  then show ?thesis by (cases r) auto
qed

lemma verify_calls:
  assumes "verify e su user b w = (w', out)"
  shows "\<exists>cs. calls w' = calls w @ cs \<and> EnsembleAnalysis \<notin> set cs"
proof (cases "serviceFails e")
  case True
  with assms show ?thesis by (auto simp: verify_def)
next
  case False
  let ?w1 = "w\<lparr>calls := calls w @ (if hasImages b then [OcrFetch] else [])\<rparr>"
  let ?text = "searchText b (ocrTextOf e b)"
  obtain w2 res where s: "searchAlerts e b ?text ?w1 = (w2, res)"
    by (cases "searchAlerts e b ?text ?w1")
  from searchAlerts_calls[OF s] obtain cs where
    cs: "w2 = ?w1\<lparr>calls := calls ?w1 @ cs\<rparr>" "prefix cs (issuedQueries b ?text)" by blast
  have "EnsembleAnalysis \<notin> set (issuedQueries b ?text)"
    by (simp add: issuedQueries_def)
  with cs(2) have ne: "EnsembleAnalysis \<notin> set cs"
    using set_mono_prefix by blast
  have c2: "calls w2 = calls w @ (if hasImages b then [OcrFetch] else []) @ cs"
    by (simp add: cs(1))
  show ?thesis
  proof (cases res)
    case (Inl x)
    with assms False s have "w' = w2" by (simp add: verify_def extractOcr_eq)
    with c2 ne show ?thesis by auto
  next
    case (Inr rows)
    with assms False s
    have "respond e (sessionUserId su) user b (decide (matchingAlerts rows)) w2 = (w', out)"
      by (simp add: verify_def extractOcr_eq ensembleStage_decide)
    from respond_calls[OF this] c2 ne show ?thesis by auto
  qed
qed

lemma handle_calls:
  assumes "handle e w = (w', out)"
  shows "\<exists>cs. calls w' = calls w @ cs \<and> EnsembleAnalysis \<notin> set cs"
  using assms
  by (auto simp: handle_def Let_def
           split: prod.splits sum.splits if_splits auth_outcome.splits
           dest!: validateUser_frame verify_calls)

lemma respond_Inr_status:
  assumes "respond e uid user b r w = (w', Inr resp)"
  shows "status resp = 200"
  using assms
  by (auto simp: respond_def deductPoint_def saveProductCheck_def saveCheckResult_def
           split: if_splits option.splits)

lemma respond_Inl:
  assumes "respond e uid user b r w = (w', Inl x)"
  shows "x \<in> {DbError UserUpdate, DbError ProductCheckCreate, DbError CheckResultCreate}"
  using assms
  by (auto simp: respond_def deductPoint_def saveProductCheck_def saveCheckResult_def
           split: if_splits option.splits)

lemma searchAlerts_Inl:
  assumes "searchAlerts e b text w = (w', Inl x)"
  shows "x \<in> {DbError AlertFindManyBatch, DbError AlertFindManyTitle, DbError AlertFindManyContent}"
  using assms
  by (auto simp: searchAlerts_def guardedQuery_eq split: if_splits)

lemma verify_cases:
  assumes "verify e su user b w = (w', out)"
  shows "(serviceFails e \<and> out = Inl ServiceError) \<or>
         (\<exists>w2 x. searchAlerts e b (searchText b (ocrTextOf e b))
                    (w\<lparr>calls := calls w @ (if hasImages b then [OcrFetch] else [])\<rparr>) = (w2, Inl x)
                  \<and> out = Inl x) \<or>
         (\<exists>w2 rows. respond e (sessionUserId su) user b (decide (matchingAlerts rows)) w2 = (w', out))"
  using assms
  by (auto simp: verify_def extractOcr_eq ensembleStage_decide split: prod.splits sum.splits if_splits)

lemma verify_Inr_status:
  assumes "verify e su user b w = (w', Inr r)"
  shows "status r = 200"
  using verify_cases[OF assms] by (auto dest: respond_Inr_status)

lemma verify_Inl:
  assumes "verify e su user b w = (w', Inl x)"
  shows "x \<in> {ServiceError, DbError AlertFindManyBatch, DbError AlertFindManyTitle,
              DbError AlertFindManyContent, DbError UserUpdate, DbError ProductCheckCreate,
              DbError CheckResultCreate}"
  using verify_cases[OF assms] by (auto dest: respond_Inl searchAlerts_Inl)

lemma handle_Inr_status:
  assumes "handle e w = (w', Inr r)"
  shows "status r \<in> {200, 400, 401, 429, 503}"
  using assms
  by (auto simp: handle_def Let_def
           split: prod.splits sum.splits if_splits auth_outcome.splits
           dest: parseBody_Inl validateUser_Inl verify_Inr_status)

lemma handle_Inl_kinds:
  assumes "handle e w = (w', Inl x)"
  shows "x \<in> {AuthError, ServiceError, DbError AlertFindManyBatch, DbError AlertFindManyTitle,
              DbError AlertFindManyContent, DbError UserUpdate, DbError ProductCheckCreate,
              DbError CheckResultCreate}"
  using assms
  by (auto simp: handle_def Let_def
           split: prod.splits sum.splits if_splits auth_outcome.splits
           dest: verify_Inl)

subsection \<open>Strings\<close>

lemma isSpace_lowerChar: "isSpace (lowerChar c) = isSpace c"
  by (simp add: lowerChar_def isSpace_def)

lemma lowerChar_space: "(lowerChar c = CHR '' '') = (c = CHR '' '')"
  by (simp add: lowerChar_def)

lemma lowerChar_idem: "lowerChar (lowerChar c) = lowerChar c"
  by (simp add: lowerChar_def)

lemma toLowerCase_idem: "toLowerCase (toLowerCase s) = toLowerCase s"
  by (simp add: toLowerCase_def lowerChar_idem)

lemma toLowerCase_append: "toLowerCase (xs @ ys) = toLowerCase xs @ toLowerCase ys"
  by (simp add: toLowerCase_def)

lemma list_all_isSpace_toLowerCase: "list_all isSpace (toLowerCase s) = list_all isSpace s"
  by (simp add: toLowerCase_def list_all_iff isSpace_lowerChar)

lemma trim_padded:
  assumes "list_all isSpace pad1" "list_all isSpace pad2"
  shows "trim (pad1 @ s @ pad2) = trim s"
proof -
  have l: "dropWhile isSpace (pad1 @ s @ pad2) = dropWhile isSpace (s @ pad2)"
    by (rule dropWhile_append2) (use assms(1) in \<open>auto simp: list_all_iff\<close>)
  show ?thesis
  proof (cases "\<forall>c\<in>set s. isSpace c")
    case True
    then have "dropWhile isSpace (s @ pad2) = []" "dropWhile isSpace s = []"
      using assms(2) by (simp_all add: list_all_iff dropWhile_eq_Nil_conv)
    then show ?thesis by (simp only: trim_def l)
  next
    case False
    then obtain x where "x \<in> set s" "\<not> isSpace x" by blast
    then have "dropWhile isSpace (s @ pad2) = dropWhile isSpace s @ pad2"
      by (rule dropWhile_append1)
    moreover have "dropWhile isSpace (rev pad2 @ rev (dropWhile isSpace s)) =
                   dropWhile isSpace (rev (dropWhile isSpace s))"
      by (rule dropWhile_append2) (use assms(2) in \<open>auto simp: list_all_iff\<close>)
    ultimately show ?thesis by (simp only: trim_def l rev_append)
  qed
qed

lemma trim_prefix_left: "\<exists>z. dropWhile isSpace s = trim s @ z \<and> list_all isSpace z"
proof -
  let ?l = "dropWhile isSpace s"
  have "rev ?l = takeWhile isSpace (rev ?l) @ dropWhile isSpace (rev ?l)" by simp
  then have "?l = rev (dropWhile isSpace (rev ?l)) @ rev (takeWhile isSpace (rev ?l))"
    by (metis rev_append rev_rev_ident)
  moreover have "list_all isSpace (rev (takeWhile isSpace (rev ?l)))"
    by (auto simp: list_all_iff dest: set_takeWhileD)
  ultimately show ?thesis unfolding trim_def by blast
qed

lemma trim_first_word:
  assumes "w0 \<noteq> []" "\<forall>c\<in>set w0. \<not> isSpace c"
  shows "\<exists>z. trim (w0 @ CHR '' '' # r) = w0 @ z \<and> (z = [] \<or> hd z = CHR '' '')"
proof -
  have sp: "isSpace (CHR '' '')" by (simp add: isSpace_def)
  from assms obtain c cs where w0: "w0 = c # cs" "\<not> isSpace c" by (cases w0) auto
  have l: "dropWhile isSpace (w0 @ CHR '' '' # r) = w0 @ CHR '' '' # r"
    by (simp add: w0)
  from assms have lastw: "\<not> isSpace (last w0)" by (meson last_in_set)
  have rw: "dropWhile isSpace (rev w0) = rev w0"
    using assms(1) lastw by (simp add: dropWhile_eq_self_iff hd_rev)
  show ?thesis
  proof (cases "\<forall>x\<in>set r. isSpace x")
    case True
    then have ar: "\<forall>x\<in>set (rev r @ [CHR '' '']). isSpace x" using sp by simp
    have "rev (w0 @ CHR '' '' # r) = (rev r @ [CHR '' '']) @ rev w0" by simp
    moreover have "dropWhile isSpace ((rev r @ [CHR '' '']) @ rev w0) = dropWhile isSpace (rev w0)"
      by (rule dropWhile_append2) (use ar in blast)
    ultimately have "dropWhile isSpace (rev (w0 @ CHR '' '' # r)) = rev w0"
      using rw by simp
    then have "trim (w0 @ CHR '' '' # r) = w0 @ []"
      unfolding trim_def l by simp
    then show ?thesis by blast
  next
    case False
    then have nr: "\<not> (\<forall>x\<in>set (rev r). isSpace x)" by simp
    have "rev (w0 @ CHR '' '' # r) = rev r @ (CHR '' '' # rev w0)" by simp
    moreover have "dropWhile isSpace (rev r @ (CHR '' '' # rev w0)) =
               dropWhile isSpace (rev r) @ (CHR '' '' # rev w0)"
    proof -
      from nr obtain x where "x \<in> set (rev r)" "\<not> isSpace x" by blast
      then show ?thesis by (rule dropWhile_append1)
    qed
    ultimately have "dropWhile isSpace (rev (w0 @ CHR '' '' # r)) =
               dropWhile isSpace (rev r) @ CHR '' '' # rev w0"
      by simp
    then have "trim (w0 @ CHR '' '' # r) = w0 @ CHR '' '' # rev (dropWhile isSpace (rev r))"
      unfolding trim_def l by simp
    then show ?thesis by auto
  qed
qed

lemma first_word_of_trim:
  assumes "w0 \<noteq> []" "\<forall>c\<in>set w0. \<not> isSpace c"
  shows "firstToken (trim (w0 @ CHR '' '' # r)) = w0"
    and "takeWhile (\<lambda>c. \<not> isSpace c) (trim (w0 @ CHR '' '' # r)) = w0"
proof -
  have sp: "isSpace (CHR '' '')" by (simp add: isSpace_def)
  from assms(2) sp have ns: "\<forall>c\<in>set w0. c \<noteq> CHR '' ''" by auto
  from trim_first_word[OF assms, of r] obtain z where
    z: "trim (w0 @ CHR '' '' # r) = w0 @ z" "z = [] \<or> hd z = CHR '' ''" by blast
  show "firstToken (trim (w0 @ CHR '' '' # r)) = w0"
  proof (cases z)
    case Nil
    with z ns show ?thesis by (simp add: firstToken_def)
  next
    case (Cons y ys)
    with z have "y = CHR '' ''" by simp
    with z Cons ns show ?thesis by (simp add: firstToken_def takeWhile_tail)
  qed
  show "takeWhile (\<lambda>c. \<not> isSpace c) (trim (w0 @ CHR '' '' # r)) = w0"
  proof (cases z)
    case Nil
    with z assms(2) show ?thesis by simp
  next
    case (Cons y ys)
    with z have "y = CHR '' ''" by simp
    with z Cons assms(2) sp show ?thesis by (simp add: takeWhile_tail)
  qed
qed

subsection \<open>The queries\<close>

lemma findMany_sorted_all:
  "sorted_wrt (\<lambda>x y. scrapedAt y \<le> scrapedAt x)
     (sort_key (\<lambda>a. - scrapedAt a) (filter (\<lambda>a. active a \<and> m a) table))"
proof -
  have "sorted (map (\<lambda>a. - scrapedAt a)
          (sort_key (\<lambda>a. - scrapedAt a) (filter (\<lambda>a. active a \<and> m a) table)))"
    by (rule sorted_sort_key)
  then show ?thesis
    by (simp add: sorted_wrt_map)
qed

lemma findMany_length: "length (findMany m table) \<le> 5"
  by (simp add: findMany_def)

lemma findMany_sorted: "sorted_wrt (\<lambda>x y. scrapedAt y \<le> scrapedAt x) (findMany m table)"
proof -
  let ?s = "sort_key (\<lambda>a. - scrapedAt a) (filter (\<lambda>a. active a \<and> m a) table)"
  have "sorted_wrt (\<lambda>x y. scrapedAt y \<le> scrapedAt x) (take 5 ?s @ drop 5 ?s)"
    using findMany_sorted_all[of m table] by simp
  then show ?thesis
    unfolding findMany_def sorted_wrt_append by blast
qed

lemma findMany_set: "set (findMany m table) \<subseteq> {a \<in> set table. active a \<and> m a}"
proof -
  have "set (findMany m table) \<subseteq>
          set (sort_key (\<lambda>a. - scrapedAt a) (filter (\<lambda>a. active a \<and> m a) table))"
    unfolding findMany_def by (rule set_take_subset)
  then show ?thesis by auto
qed

lemma findMany_most_recent:
  assumes "a \<in> set (findMany m table)" "c \<in> set table" "active c" "m c"
    "c \<notin> set (findMany m table)"
  shows "scrapedAt c \<le> scrapedAt a"
proof -
  let ?s = "sort_key (\<lambda>a. - scrapedAt a) (filter (\<lambda>a. active a \<and> m a) table)"
  have "c \<in> set (take 5 ?s @ drop 5 ?s)" using assms(2,3,4) by simp
  with assms(5) have c: "c \<in> set (drop 5 ?s)"
    unfolding findMany_def set_append by blast
  have "sorted_wrt (\<lambda>x y. scrapedAt y \<le> scrapedAt x) (take 5 ?s @ drop 5 ?s)"
    using findMany_sorted_all[of m table] by simp
  with assms(1) c show ?thesis
    unfolding findMany_def sorted_wrt_append by blast
qed

lemma findMany_all:
  assumes "length (filter (\<lambda>a. active a \<and> m a) table) \<le> 5"
  shows "set (findMany m table) = {a \<in> set table. active a \<and> m a}"
  using assms by (auto simp: findMany_def)

lemma findMany_mem:
  assumes "a \<in> set (findMany m table)"
  shows "a \<in> set table \<and> active a \<and> m a"
  using assms findMany_set[of m table] by blast

lemma strategy_rows:
  assumes "rs \<in> {batchMatches b table, productMatches b table, contentMatches stext table}"
  shows "length rs \<le> 5 \<and> sorted_wrt (\<lambda>x y. scrapedAt y \<le> scrapedAt x) rs \<and>
         set rs \<subseteq> {a \<in> set table. active a}"
  using assms findMany_length findMany_sorted
  by (auto simp: batchMatches_def productMatches_def contentMatches_def dest: findMany_mem)

lemma dedupById_three:
  "dedupById (xs @ ys @ zs) =
     dedupById xs @ filter (\<lambda>a. alertId a \<notin> alertId ` set xs) (dedupById ys) @
     filter (\<lambda>a. alertId a \<notin> alertId ` set (xs @ ys)) (dedupById zs)"
proof -
  have "filter (\<lambda>a. alertId a \<notin> alertId ` set xs)
          (filter (\<lambda>a. alertId a \<notin> alertId ` set ys) (dedupById zs)) =
        filter (\<lambda>a. alertId a \<notin> alertId ` set (xs @ ys)) (dedupById zs)"
    unfolding filter_filter by (intro filter_cong[OF refl]) auto
  then show ?thesis
    by (simp add: dedupById_append[of xs "ys @ zs"] dedupById_append[of ys zs])
qed

lemma matchingAlerts_first:
  assumes "a \<in> set (matchingAlerts rows)"
  shows "find (\<lambda>x. alertId x = alertId a) rows = Some a"
proof -
  from assms have "a \<in> set (dedupById rows)"
    unfolding matchingAlerts_def uniqueAlerts_def by (rule in_set_takeD)
  then show ?thesis by (rule find_dedupById)
qed

subsection \<open>Sanitised input and the search text\<close>

lemma collapseSpaces_only_space:
  "c \<in> set (collapseSpaces s) \<Longrightarrow> isSpace c \<Longrightarrow> c = CHR '' ''"
  by (induction s rule: collapseSpaces.induct) (auto split: if_splits)

lemma collapseSpaces_Nil_iff: "collapseSpaces s = [] \<longleftrightarrow> s = []"
  by (induction s rule: collapseSpaces.induct) auto

lemma collapseSpaces_hd:
  assumes "s \<noteq> []" "\<not> isSpace (hd s)"
  shows "hd (collapseSpaces s) = hd s"
proof (cases s)
  case Nil
  with assms show ?thesis by simp
next
  case (Cons c cs)
  with assms show ?thesis by (cases cs) auto
qed

lemma trim_hd:
  assumes "trim s \<noteq> []"
  shows "\<not> isSpace (hd (trim s))"
proof -
  from trim_prefix_left[of s] obtain z where z: "dropWhile isSpace s = trim s @ z" by blast
  with assms have "dropWhile isSpace s \<noteq> []" "hd (dropWhile isSpace s) = hd (trim s)"
    by auto
  with hd_dropWhile[of isSpace s] show ?thesis by simp
qed

lemma set_trim: "set (trim s) \<subseteq> set s"
proof -
  from trim_prefix_left[of s] obtain z where z: "dropWhile isSpace s = trim s @ z" by blast
  then have "set (trim s) \<subseteq> set (dropWhile isSpace s)" by simp
  then show ?thesis by (auto dest: set_dropWhileD)
qed

lemma sanitizeInput_valid:
  assumes "list_all (\<lambda>c. \<not> forbidden c) raw"
  shows "sanitizeInput raw = take 1000 (collapseSpaces (trim raw))"
proof -
  have "filter (\<lambda>c. \<not> forbidden c) (trim raw) = trim raw"
    using assms set_trim[of raw] by (auto simp: list_all_iff filter_id_conv)
  then show ?thesis by (simp add: sanitizeInput_def)
qed

lemma sanitizeInput_shape:
  assumes "list_all (\<lambda>c. \<not> forbidden c) raw" "sanitizeInput raw \<noteq> []"
  shows "\<not> isSpace (hd (sanitizeInput raw))"
    and "\<forall>c\<in>set (sanitizeInput raw). isSpace c \<longrightarrow> c = CHR '' ''"
proof -
  note eq = sanitizeInput_valid[OF assms(1)]
  from assms(2) have ne: "collapseSpaces (trim raw) \<noteq> []" by (auto simp: eq)
  then have t: "trim raw \<noteq> []" by (simp add: collapseSpaces_Nil_iff)
  from collapseSpaces_hd[OF t trim_hd[OF t]] trim_hd[OF t]
  have "\<not> isSpace (hd (collapseSpaces (trim raw)))" by simp
  then show "\<not> isSpace (hd (sanitizeInput raw))"
    by (simp add: eq hd_take)
  show "\<forall>c\<in>set (sanitizeInput raw). isSpace c \<longrightarrow> c = CHR '' ''"
    unfolding eq by (auto dest: in_set_takeD collapseSpaces_only_space)
qed

lemma searchText_plain:
  "searchText b ocrText =
     trim (toLowerCase (cleanName b @ '' '' @ cleanDescription b @ '' '' @
                        orEmpty (cleanBatch b) @ '' '' @ ocrText))"
proof -
  let ?s = "cleanName b @ '' '' @ cleanDescription b @ '' '' @ orEmpty (cleanBatch b) @ '' '' @ ocrText"
  have p1: "list_all isSpace (toLowerCase ([CHR 0x0A] @ ''      ''))"
    and p2: "list_all isSpace (toLowerCase ([CHR 0x0A] @ ''    ''))"
    by (simp_all add: list_all_isSpace_toLowerCase isSpace_def)
  have "searchText b ocrText =
          trim (toLowerCase ([CHR 0x0A] @ ''      '') @ toLowerCase ?s @ toLowerCase ([CHR 0x0A] @ ''    ''))"
    unfolding searchText_def toLowerCase_append[symmetric] by simp
  also have "\<dots> = trim (toLowerCase ?s)"
    using p1 p2 by (rule trim_padded)
  finally show ?thesis .
qed

lemma first_token_of_padded_name:
  assumes "n \<noteq> []" "\<not> isSpace (hd n)" "\<forall>c\<in>set n. isSpace c \<longrightarrow> c = CHR '' ''"
  shows "firstToken (trim (toLowerCase (n @ CHR '' '' # rest))) = toLowerCase (firstToken n)"
    and "takeWhile (\<lambda>c. \<not> isSpace c) (trim (toLowerCase (n @ CHR '' '' # rest))) =
           toLowerCase (firstToken n)"
proof -
  let ?ln = "toLowerCase n"
  let ?w0 = "takeWhile (\<lambda>c. c \<noteq> CHR '' '') ?ln"
  let ?d = "dropWhile (\<lambda>c. c \<noteq> CHR '' '') ?ln"
  have sp: "isSpace (CHR '' '')" by (simp add: isSpace_def)
  have w0: "?w0 = toLowerCase (firstToken n)"
  proof -
    have "(\<lambda>c. c \<noteq> CHR '' '') \<circ> lowerChar = (\<lambda>c. c \<noteq> CHR '' '')"
      by (auto simp: fun_eq_iff lowerChar_space)
    then show ?thesis
      by (simp add: toLowerCase_def firstToken_def takeWhile_map)
  qed
  from assms(1) obtain c cs where n: "n = c # cs" by (cases n) auto
  with assms(2) have "\<not> isSpace c" by simp
  then have "lowerChar c \<noteq> CHR '' ''" using sp by (auto simp: lowerChar_space)
  then have ne: "?w0 \<noteq> []" by (simp add: n toLowerCase_def)
  have clean: "\<forall>x\<in>set ?w0. \<not> isSpace x"
  proof
    fix x assume x: "x \<in> set ?w0"
    then have "x \<noteq> CHR '' ''" by (auto dest: set_takeWhileD)
    moreover from x have "x \<in> set ?ln" by (auto dest: set_takeWhileD)
    then obtain y where "y \<in> set n" "x = lowerChar y" by (auto simp: toLowerCase_def)
    ultimately show "\<not> isSpace x"
      using assms(3) by (auto simp: isSpace_lowerChar lowerChar_space)
  qed
  obtain r where r: "?d @ CHR '' '' # toLowerCase rest = CHR '' '' # r"
  proof (cases ?d)
    case Nil
    then show ?thesis by (intro that[of "toLowerCase rest"]) simp
  next
    case (Cons y ys)
    with hd_dropWhile[of "\<lambda>c. c \<noteq> CHR '' ''" ?ln] have "y = CHR '' ''" by simp
    with Cons show ?thesis by (intro that[of "ys @ CHR '' '' # toLowerCase rest"]) simp
  qed
  have "lowerChar (CHR '' '') = CHR '' ''" by (simp add: lowerChar_space)
  then have "toLowerCase (n @ CHR '' '' # rest) = (?w0 @ ?d) @ CHR '' '' # toLowerCase rest"
    by (simp add: toLowerCase_def)
  also have "\<dots> = ?w0 @ CHR '' '' # r"
    by (simp only: append_assoc r)
  finally have eq: "toLowerCase (n @ CHR '' '' # rest) = ?w0 @ CHR '' '' # r" .
  show "firstToken (trim (toLowerCase (n @ CHR '' '' # rest))) = toLowerCase (firstToken n)"
    unfolding eq using first_word_of_trim(1)[OF ne clean, of r] w0 by simp
  show "takeWhile (\<lambda>c. \<not> isSpace c) (trim (toLowerCase (n @ CHR '' '' # rest))) =
           toLowerCase (firstToken n)"
    unfolding eq using first_word_of_trim(2)[OF ne clean, of r] w0 by simp
qed

lemma searchText_lowercase:
  "toLowerCase (firstToken (searchText b ocrText)) = firstToken (searchText b ocrText)"
proof -
  have "lowerChar c = c" if "c \<in> set (firstToken (searchText b ocrText))" for c
  proof -
    from that have "c \<in> set (searchText b ocrText)"
      by (auto simp: firstToken_def dest: set_takeWhileD)
    then have "c \<in> set (toLowerCase (cleanName b @ '' '' @ cleanDescription b @ '' '' @
                        orEmpty (cleanBatch b) @ '' '' @ ocrText))"
      unfolding searchText_plain using set_trim by blast
    then obtain y where "c = lowerChar y" by (auto simp: toLowerCase_def)
    then show ?thesis by (simp add: lowerChar_idem)
  qed
  then show ?thesis
    unfolding toLowerCase_def by (intro map_idI)
qed

subsection \<open>Pattern matching of the contains filter\<close>

lemma hasSubstring_iff: "hasSubstring hay needle \<longleftrightarrow> (\<exists>pre post. hay = pre @ needle @ post)"
proof (induction hay)
  case Nil
  then show ?case by auto
next
  case (Cons c cs)
  have "(\<exists>pre post. c # cs = pre @ needle @ post) \<longleftrightarrow>
        (\<exists>post. c # cs = needle @ post) \<or> (\<exists>pre post. cs = pre @ needle @ post)"
    by (auto simp: Cons_eq_append_conv)
  then show ?case
    by (simp add: Cons.IH prefix_def)
qed

lemma likeMatch_all: "likeMatch ''%'' s"
  by (induction s) auto

lemma likeMatch_percent:
  "likeMatch (CHR ''%'' # ps) s \<longleftrightarrow> (\<exists>pre r. s = pre @ r \<and> likeMatch ps r)"
proof (induction s)
  case Nil
  then show ?case by simp
next
  case (Cons c cs)
  have "(\<exists>pre r. c # cs = pre @ r \<and> likeMatch ps r) \<longleftrightarrow>
        likeMatch ps (c # cs) \<or> (\<exists>pre r. cs = pre @ r \<and> likeMatch ps r)"
    by (auto simp: Cons_eq_append_conv)
  then show ?case
    by (simp add: Cons.IH)
qed

lemma likeMatch_literal:
  assumes "\<forall>x\<in>set n. \<not> likeMeta x"
  shows "likeMatch (n @ ps) s \<longleftrightarrow> (\<exists>r. s = n @ r \<and> likeMatch ps r)"
  using assms
proof (induction n arbitrary: s)
  case Nil
  then show ?case by simp
next
  case (Cons x xs)
  then have x: "x \<noteq> CHR ''%''" "x \<noteq> CHR ''_''" "x \<noteq> CHR 0x5C"
    and rest: "\<forall>x\<in>set xs. \<not> likeMeta x"
    by (auto simp: likeMeta_def)
  show ?case
  proof (cases s)
    case Nil
    with x show ?thesis by simp
  next
    case (Cons c cs)
    with x Cons.IH[OF rest, of cs] show ?thesis by auto
  qed
qed

lemma likeMatch_contains:
  assumes "\<forall>x\<in>set n. \<not> likeMeta x"
  shows "likeMatch (likePattern n) s \<longleftrightarrow> hasSubstring s n"
proof -
  have "likeMatch (likePattern n) s \<longleftrightarrow> (\<exists>pre r. s = pre @ r \<and> likeMatch (n @ ''%'') r)"
    unfolding likePattern_def by (rule likeMatch_percent)
  also have "\<dots> \<longleftrightarrow> (\<exists>pre r. s = pre @ r \<and> (\<exists>post. r = n @ post))"
    by (simp add: likeMatch_literal[OF assms] likeMatch_all)
  also have "\<dots> \<longleftrightarrow> hasSubstring s n"
    unfolding hasSubstring_iff by auto
  finally show ?thesis .
qed

lemma likeMeta_lowerChar: "likeMeta (lowerChar c) = likeMeta c"
  by (simp add: lowerChar_def likeMeta_def)

lemma toLowerCase_likePattern: "toLowerCase (likePattern n) = likePattern (toLowerCase n)"
  by (simp add: likePattern_def toLowerCase_def lowerChar_def)

lemma no_danglingEscape: "\<not> danglingEscape (n @ ''%'')"
proof (induction n rule: danglingEscape.induct)
  case 1
  then show ?case by simp
next
  case (2 p ps)
  show ?case
  proof (cases ps)
    case Nil
    then show ?thesis by simp
  next
    case (Cons q qs)
    with 2 show ?thesis by simp
  qed
qed

lemma no_danglingEscape_pattern: "\<not> danglingEscape (likePattern n)"
  using no_danglingEscape[of n] by (simp add: likePattern_def)

lemma containsInsensitive_eq:
  "containsInsensitive hay needle = likeMatch (likePattern (toLowerCase needle)) (toLowerCase hay)"
  by (simp add: containsInsensitive_def ilike_def toLowerCase_likePattern)

lemma containsInsensitive_plain:
  assumes "list_all (\<lambda>c. \<not> likeMeta c) needle"
  shows "containsInsensitive hay needle = hasSubstring (toLowerCase hay) (toLowerCase needle)"
proof -
  from assms have "\<forall>x\<in>set (toLowerCase needle). \<not> likeMeta x"
    by (auto simp: toLowerCase_def list_all_iff likeMeta_lowerChar)
  then show ?thesis
    by (simp add: containsInsensitive_eq likeMatch_contains)
qed

subsection \<open>Claims on the confidence formula and on deduplication\<close>

text \<open>
  C3. The confidence is a linear formula of the number \<open>n\<close> of unique matching alerts
  handed to the decision: for \<open>n \<ge> 1\<close> it is \<open>min 95 (70 + 5 n)\<close>, for \<open>n = 0\<close> it is 100;
  over all non-empty lists of matching alerts it takes exactly the values 75, 80, 85, 90
  and 95.
\<close>

theorem confidence_linear_formula:
  "confidence (decide ms) =
     (if 1 \<le> int (length ms) then min 95 (70 + 5 * int (length ms)) else 100)
   \<and> (\<lambda>ms. confidence (decide ms)) ` {ms. 1 \<le> length ms} = {75, 80, 85, 90, 95}"
proof
  show "confidence (decide ms) =
     (if 1 \<le> int (length ms) then min 95 (70 + 5 * int (length ms)) else 100)"
    by (cases ms) (simp_all add: confidence_decide matchConfidence_def)
next
  show "(\<lambda>ms. confidence (decide ms)) ` {ms. 1 \<le> length ms} = {75, 80, 85, 90, 95}"
  proof (rule equalityI; rule subsetI)
    fix v assume "v \<in> (\<lambda>ms. confidence (decide ms)) ` {ms. 1 \<le> length ms}"
    then obtain ms where ms: "1 \<le> length ms" "v = confidence (decide ms)" by auto
    from ms(1) have "int (length ms) \<ge> 1" "ms \<noteq> []" by auto
    with matchConfidence_values[of "int (length ms)"] ms(2)
    show "v \<in> {75, 80, 85, 90, 95}" by (simp add: confidence_decide)
  next
    fix v :: int assume "v \<in> {75, 80, 85, 90, 95}"
    then obtain k :: nat where k: "1 \<le> k" "matchConfidence (int k) = v"
      by (auto simp: matchConfidence_def
               intro: that[of 1] that[of 2] that[of 3] that[of 4] that[of 5])
    have "confidence (decide (replicate k aspirinAlert)) = v"
      using k by (auto simp: confidence_decide)
    moreover have "replicate k aspirinAlert \<in> {ms. 1 \<le> length ms}"
      using k by simp
    ultimately show "v \<in> (\<lambda>ms. confidence (decide ms)) ` {ms. 1 \<le> length ms}"
      by (metis (mono_tags, lifting) image_eqI)
  qed
qed

theorem confidence_linear_formula_witness:
  "confidence (decide [aspirinAlert, syrupAlert]) = 80 \<and> confidence (decide []) = 100"
  using confidence_linear_formula[of "[aspirinAlert, syrupAlert]"]
        confidence_linear_formula[of "[]"]
  by simp

text \<open>
  C4. Deduplication is by id: the handler's filter keeps exactly the positions whose id
  does not occur at an earlier position, which is the list of first occurrences in the
  order of the input; \<^verbatim>\<open>uniqueAlerts\<close> is its first 10 elements. So \<^verbatim>\<open>uniqueAlerts\<close>
  is a subsequence of the concatenated matches, has at most 10 elements, no two with the
  same id, and all of them from the input.
\<close>

theorem dedup_keeps_first_occurrences:
  "dedupById rows =
     map ((!) rows)
       (filter (\<lambda>i. \<forall>j<i. alertId (rows ! j) \<noteq> alertId (rows ! i)) [0..<length rows])
   \<and> dedupById rows = firstOccurrences [] rows
   \<and> uniqueAlerts rows = take 10 (firstOccurrences [] rows)
   \<and> subseq (uniqueAlerts rows) rows
   \<and> length (uniqueAlerts rows) \<le> 10
   \<and> distinct (map alertId (uniqueAlerts rows))
   \<and> set (uniqueAlerts rows) \<subseteq> set rows"
proof -
  have first: "dedupById rows = firstOccurrences [] rows"
    by (simp add: dedupById_firstOccurrences_gen)
  have sub: "subseq (uniqueAlerts rows) rows"
  proof -
    have "subseq (take 10 (dedupById rows)) (dedupById rows)"
      by (rule prefix_imp_subseq) (rule take_is_prefix)
    then show ?thesis
      unfolding uniqueAlerts_def using subseq_dedupById by (rule subseq_order.trans)
  qed
  have dist: "distinct (map alertId (uniqueAlerts rows))"
    unfolding uniqueAlerts_def take_map[symmetric]
    by (rule distinct_take) (rule distinct_dedupById)
  have mem: "set (uniqueAlerts rows) \<subseteq> set rows"
    unfolding uniqueAlerts_def using set_dedupById[of rows] set_take_subset[of 10 "dedupById rows"]
    by blast
  show ?thesis
    using first sub dist mem dedupById_positions[of rows]
    by (simp add: uniqueAlerts_def)
qed

theorem dedup_keeps_first_occurrences_witness:
  "uniqueAlerts [aspirinAlert, syrupAlert, aspirinAlert, syrupAlert] = [aspirinAlert, syrupAlert]"
  using dedup_keeps_first_occurrences[of "[aspirinAlert, syrupAlert, aspirinAlert, syrupAlert]"]
  by (simp add: aspirinAlert_def syrupAlert_def)

subsection \<open>Claims on the decision and its confidence\<close>

text \<open>
  C1. For every request that the handler answers with a verification result, the reported
  \<^verbatim>\<open>isCounterfeit\<close> is true if and only if the search of that request found at least
  one alert (equivalently, if and only if the list of unique matching alerts is not
  empty); with no alert found it is false.
\<close>

theorem counterfeit_iff_alert_found:
  assumes "POST e w = (w', r)" and "parseBody (json e) = Inr b"
    and "responseIsCounterfeit r = Some verdict"
  shows "verdict = (foundAlerts e b (alerts w) \<noteq> []) \<and>
         verdict = (allMatches b (searchText b (ocrTextOf e b)) (alerts w) \<noteq> [])"
proof -
  from assms(3) have "\<not> (\<exists>st msg. r = ErrorJson st msg)" by auto
  with POST_response_shape[OF assms(1)] assms(2) obtain bal where
    "r = ResultJson (newCheckId e) (decide (foundAlerts e b (alerts w))) bal" by auto
  with assms(3) have "verdict = (foundAlerts e b (alerts w) \<noteq> [])"
    by (simp add: isCounterfeit_decide)
  then show ?thesis
    by (simp add: foundAlerts_def matchingAlerts_empty_iff)
qed

theorem counterfeit_iff_alert_found_witness:
  "responseIsCounterfeit (snd (POST aspirinEnv (someWorld 3))) = Some True \<and>
   foundAlerts aspirinEnv (sanitizeBody aspirinBody) alertTable \<noteq> [] \<and>
   responseIsCounterfeit (snd (POST vitaminEnv (someWorld 3))) = Some False \<and>
   foundAlerts vitaminEnv (sanitizeBody vitaminBody) alertTable = []"
proof -
  have a1: "POST aspirinEnv (someWorld 3) =
              (fst (POST aspirinEnv (someWorld 3)), snd (POST aspirinEnv (someWorld 3)))" by simp
  have a2: "parseBody (json aspirinEnv) = Inr (sanitizeBody aspirinBody)"
    by (simp add: parseBody_def aspirinEnv_def verifyProductSchema_def aspirinBody_def forbidden_def)
  have a3: "responseIsCounterfeit (snd (POST aspirinEnv (someWorld 3))) = Some True"
    by code_simp
  have v1: "POST vitaminEnv (someWorld 3) =
              (fst (POST vitaminEnv (someWorld 3)), snd (POST vitaminEnv (someWorld 3)))" by simp
  have v2: "parseBody (json vitaminEnv) = Inr (sanitizeBody vitaminBody)"
    by (simp add: parseBody_def vitaminEnv_def aspirinEnv_def verifyProductSchema_def
          vitaminBody_def forbidden_def batchChar_def isUpper_def isDigit_def)
  have v3: "responseIsCounterfeit (snd (POST vitaminEnv (someWorld 3))) = Some False"
    by code_simp
  have al: "alerts (someWorld 3) = alertTable" by (simp add: someWorld_def)
  from counterfeit_iff_alert_found[OF a1 a2 a3] counterfeit_iff_alert_found[OF v1 v2 v3] a3 v3
  show ?thesis by (simp add: al)
qed

text \<open>
  C5. The confidence of the decision is 100 (exactly when there is no matching alert) or
  one of 75, 80, 85, 90, 95, so the guard of the ensemble stage never holds and the stage
  returns its input without calling the ensemble analysis. For every request: the handler
  never calls the ensemble analysis, never answers with the fixed safe response of the
  \<^verbatim>\<open>confidence === 0\<close> branch, and never reports confidence 0; every confidence the
  handler reports is 100 or one of 75, 80, 85, 90, 95, and in a verification result it is
  100 when no alert was found and \<open>min 95 (70 + 5 n)\<close> for \<open>n \<ge> 1\<close> alerts; and a request answered
  with status 200 for which no alert was found gets the general response with
  \<^verbatim>\<open>isCounterfeit\<close> false and confidence 100.
\<close>

theorem low_confidence_branches_unreachable:
  "confidence (decide ms) \<in> {75, 80, 85, 90, 95, 100}
   \<and> (confidence (decide ms) = 100) = (ms = [])
   \<and> \<not> lowConfidence (decide ms)
   \<and> ensembleStage e (decide ms) w = (w, Inr (decide ms))
   \<and> (POST e w = (w', r) \<longrightarrow>
        count_list (calls w') EnsembleAnalysis = count_list (calls w) EnsembleAnalysis
        \<and> (\<forall>rid bal. r \<noteq> SafeJson rid bal)
        \<and> responseConfidence r \<noteq> Some 0
        \<and> (\<forall>c. responseConfidence r = Some c \<longrightarrow> c \<in> {75, 80, 85, 90, 95, 100})
        \<and> (status r = 200 \<and> parseBody (json e) = Inr b \<longrightarrow>
             responseConfidence r =
               Some (if foundAlerts e b (alerts w) = [] then 100
                     else min 95 (70 + 5 * int (length (foundAlerts e b (alerts w))))))
        \<and> (status r = 200 \<and> parseBody (json e) = Inr b \<and> foundAlerts e b (alerts w) = [] \<longrightarrow>
             (\<exists>bal. r = ResultJson (newCheckId e) (decide []) bal)
             \<and> responseIsCounterfeit r = Some False
             \<and> responseConfidence r = Some 100
             \<and> responseSummary r = Some noAlertSummary))"
proof -
  have c100: "(confidence (decide ms) = 100) = (ms = [])"
  proof (cases "ms = []")
    case True then show ?thesis by (simp add: confidence_decide)
  next
    case False
    then have "int (length ms) \<ge> 1" by (cases ms) simp_all
    from matchConfidence_values[OF this] False show ?thesis
      by (auto simp: confidence_decide)
  qed
  have post: "count_list (calls w') EnsembleAnalysis = count_list (calls w) EnsembleAnalysis
        \<and> (\<forall>rid bal. r \<noteq> SafeJson rid bal)
        \<and> responseConfidence r \<noteq> Some 0
        \<and> (\<forall>c. responseConfidence r = Some c \<longrightarrow> c \<in> {75, 80, 85, 90, 95, 100})
        \<and> (status r = 200 \<and> parseBody (json e) = Inr b \<longrightarrow>
             responseConfidence r =
               Some (if foundAlerts e b (alerts w) = [] then 100
                     else min 95 (70 + 5 * int (length (foundAlerts e b (alerts w))))))
        \<and> (status r = 200 \<and> parseBody (json e) = Inr b \<and> foundAlerts e b (alerts w) = [] \<longrightarrow>
             (\<exists>bal. r = ResultJson (newCheckId e) (decide []) bal)
             \<and> responseIsCounterfeit r = Some False
             \<and> responseConfidence r = Some 100
             \<and> responseSummary r = Some noAlertSummary)" if p: "POST e w = (w', r)"
  proof -
    obtain out where h: "handle e w = (w', out)"
      using p by (cases "handle e w") (auto simp: POST_def split: sum.splits)
    from handle_calls[OF h] obtain cs where "calls w' = calls w @ cs" "EnsembleAnalysis \<notin> set cs"
      by blast
    then have cnt: "count_list (calls w') EnsembleAnalysis = count_list (calls w) EnsembleAnalysis"
      by (simp add: count_list_0_iff)
    from POST_response_shape[OF p]
    have shape: "(\<exists>st msg. r = ErrorJson st msg \<and> st \<noteq> 200) \<or>
         (\<exists>b bal. parseBody (json e) = Inr b \<and>
            r = ResultJson (newCheckId e) (decide (foundAlerts e b (alerts w))) bal)" .
    then have nosafe: "\<forall>rid bal. r \<noteq> SafeJson rid bal" by auto
    from shape have nz: "responseConfidence r \<noteq> Some 0"
      by (auto simp: confidence_decide_nonzero)
    have nomatch: "(\<exists>bal. r = ResultJson (newCheckId e) (decide []) bal)
             \<and> responseIsCounterfeit r = Some False
             \<and> responseConfidence r = Some 100
             \<and> responseSummary r = Some noAlertSummary"
      if "status r = 200" "parseBody (json e) = Inr b" "foundAlerts e b (alerts w) = []"
    proof -
      from shape that obtain bal where "r = ResultJson (newCheckId e) (decide []) bal"
        by auto
      then show ?thesis
        by (simp add: isCounterfeit_decide confidence_decide summary_decide_Nil)
    qed
    have rng: "\<forall>c. responseConfidence r = Some c \<longrightarrow> c \<in> {75, 80, 85, 90, 95, 100}"
    proof (intro allI impI)
      fix c assume c: "responseConfidence r = Some c"
      with shape obtain b0 bal where
        "r = ResultJson (newCheckId e) (decide (foundAlerts e b0 (alerts w))) bal"
        by auto
      with c have "c = confidence (decide (foundAlerts e b0 (alerts w)))" by simp
      then show "c \<in> {75, 80, 85, 90, 95, 100}"
        by (simp only: confidence_decide_range)
    qed
    have formula: "responseConfidence r =
               Some (if foundAlerts e b (alerts w) = [] then 100
                     else min 95 (70 + 5 * int (length (foundAlerts e b (alerts w)))))"
      if "status r = 200" "parseBody (json e) = Inr b"
    proof -
      from shape that obtain bal where
        "r = ResultJson (newCheckId e) (decide (foundAlerts e b (alerts w))) bal"
        by auto
      then show ?thesis
        by (simp add: confidence_decide matchConfidence_def mult.commute)
    qed
    from cnt nosafe nz nomatch rng formula show ?thesis by blast
  qed
  show ?thesis
    using confidence_decide_range[of ms] c100 not_lowConfidence_decide[of ms]
      ensembleStage_decide[of e ms w] post
    by blast
qed

theorem low_confidence_branches_unreachable_witness:
  "responseConfidence (snd (POST vitaminEnv (someWorld 3))) = Some 100 \<and>
   responseIsCounterfeit (snd (POST vitaminEnv (someWorld 3))) = Some False \<and>
   count_list (calls (fst (POST vitaminEnv (someWorld 3)))) EnsembleAnalysis = 0"
proof -
  have h1: "POST vitaminEnv (someWorld 3) =
              (fst (POST vitaminEnv (someWorld 3)), snd (POST vitaminEnv (someWorld 3)))" by simp
  have h2: "status (snd (POST vitaminEnv (someWorld 3))) = 200" by code_simp
  have h3: "parseBody (json vitaminEnv) = Inr (sanitizeBody vitaminBody)"
    by (simp add: parseBody_def vitaminEnv_def aspirinEnv_def verifyProductSchema_def
          vitaminBody_def forbidden_def batchChar_def isUpper_def isDigit_def)
  have h4: "foundAlerts vitaminEnv (sanitizeBody vitaminBody) (alerts (someWorld 3)) = []"
    by code_simp
  have h5: "count_list (calls (someWorld 3)) EnsembleAnalysis = 0"
    by (simp add: someWorld_def)
  from low_confidence_branches_unreachable[where e = vitaminEnv and w = "someWorld 3"
      and w' = "fst (POST vitaminEnv (someWorld 3))" and r = "snd (POST vitaminEnv (someWorld 3))"
      and b = "sanitizeBody vitaminBody" and ms = "[]"] h1 h2 h3 h4 h5
  show ?thesis by simp
qed

subsection \<open>Claim on error handling\<close>

text \<open>
  C6. An error thrown out of the body of the handler, whatever it is, is answered by the
  one enclosing \<^verbatim>\<open>catch\<close> with status 500 and the text \<^verbatim>\<open>Verification failed\<close>; the
  errors that reach it are a rejected authentication, a failed construction of the
  service and a failed alert query or database write of the verification (a body that is
  not JSON and a database error while reading or creating the user are answered earlier,
  with 400 and 503). A response returned by the body is passed on and never has status
  500, so a 500 response is produced exactly by the \<^verbatim>\<open>catch\<close>.
\<close>

theorem uncaught_errors_answered_500:
  "(handle e w = (w', Inl x) \<longrightarrow>
      POST e w = (w', ErrorJson 500 ''Verification failed'')
      \<and> x \<in> {AuthError, ServiceError, DbError AlertFindManyBatch, DbError AlertFindManyTitle,
               DbError AlertFindManyContent, DbError UserUpdate, DbError ProductCheckCreate,
               DbError CheckResultCreate})
   \<and> (handle e w = (w', Inr r) \<longrightarrow> POST e w = (w', r) \<and> status r \<noteq> 500)
   \<and> (status (snd (POST e w)) = 500) = (\<exists>x. snd (handle e w) = Inl x)"
proof -
  have thrown: "POST e w = (w', ErrorJson 500 ''Verification failed'')"
    if "handle e w = (w', Inl x)" for w' x
    using that by (simp add: POST_def)
  have returned: "POST e w = (w', r) \<and> status r \<noteq> 500"
    if "handle e w = (w', Inr r)" for w' r
    using that handle_Inr_status[OF that] by (auto simp: POST_def)
  have iff: "(status (snd (POST e w)) = 500) = (\<exists>x. snd (handle e w) = Inl x)"
  proof (cases "handle e w")
    case (Pair w1 out)
    show ?thesis
    proof (cases out)
      case (Inl x)
      with Pair thrown[of w1 x] show ?thesis by simp
    next
      case (Inr r1)
      with Pair returned[of w1 r1] show ?thesis by simp
    qed
  qed
  from thrown returned iff handle_Inl_kinds[of e w w' x] show ?thesis by blast
qed

theorem uncaught_errors_answered_500_witness:
  "POST (aspirinEnv\<lparr>authOutcome := AuthRejected\<rparr>) (someWorld 3) =
     (fst (handle (aspirinEnv\<lparr>authOutcome := AuthRejected\<rparr>) (someWorld 3)),
      ErrorJson 500 ''Verification failed'')"
proof -
  have h: "handle (aspirinEnv\<lparr>authOutcome := AuthRejected\<rparr>) (someWorld 3) =
             (fst (handle (aspirinEnv\<lparr>authOutcome := AuthRejected\<rparr>) (someWorld 3)), Inl AuthError)"
  proof -
    have "snd (handle (aspirinEnv\<lparr>authOutcome := AuthRejected\<rparr>) (someWorld 3)) = Inl AuthError"
      by code_simp
    then show ?thesis by (metis prod.collapse)
  qed
  from uncaught_errors_answered_500[where e = "aspirinEnv\<lparr>authOutcome := AuthRejected\<rparr>"
      and w = "someWorld 3" and x = AuthError
      and w' = "fst (handle (aspirinEnv\<lparr>authOutcome := AuthRejected\<rparr>) (someWorld 3))"] h
  show ?thesis by simp
qed

subsection \<open>Claim on rate limiting\<close>

lemma checkRateLimit_fresh:
  assumes "store ip = None \<or> (\<exists>en. store ip = Some en \<and> resetTime en < t0)"
  shows "checkRateLimit store t0 ip =
           (True, store(ip \<mapsto> \<lparr>count = 1, resetTime = t0 + RATE_LIMIT_WINDOW\<rparr>))"
  using assms by (auto simp: checkRateLimit_def)

lemma POST_rate_limited:
  assumes "rateLimitStore w (clientIP e) = Some en" "now e \<le> resetTime en"
    "RATE_LIMIT_MAX_REQUESTS \<le> count en"
  shows "POST e w = (w, ErrorJson 429 ''Too many requests'')"
  using assms by (simp add: POST_def handle_def checkRateLimit_def)

text \<open>
  C8, as stated, bounds the accepted requests of an address in any 60 seconds. Nine
  arrivals at the end of one window of the limiter and ten at the start of the next are
  all accepted: 19 within the 60 seconds that start at 59 s.
\<close>

theorem any_sixty_seconds_counterexample:
  "sorted (map fst burstArrivals) \<and>
   acceptedWithin ''10.0.0.1'' emptyStore burstArrivals 59000 (59000 + RATE_LIMIT_WINDOW) = 19 \<and>
   \<not> int (acceptedWithin ''10.0.0.1'' emptyStore burstArrivals 59000 (59000 + RATE_LIMIT_WINDOW))
       \<le> RATE_LIMIT_MAX_REQUESTS"
  by code_simp

text \<open>
  C8, amended. The limiter counts in fixed windows and allows 10 requests per window of
  60000 ms. In every store reached from the empty store each counter is between 1 and
  10. A request of an address without an entry, or arriving after the \<^verbatim>\<open>resetTime\<close>
  of its entry, is accepted and opens a window with count 1 that ends 60000 ms later; of
  the requests of that address arriving until that window ends, the opening one
  included, at most 10 are accepted. Inside a window a request is accepted and counted
  while the counter is below 10, and rejected with the store unchanged once the counter
  has reached 10; the handler then answers with status 429 and changes nothing.
\<close>

theorem rate_limit_per_window:
  "RATE_LIMIT_MAX_REQUESTS = 10 \<and> RATE_LIMIT_WINDOW = 60000
   \<and> (\<forall>a en. snd (runLimiter emptyStore reqs) a = Some en \<longrightarrow>
          1 \<le> count en \<and> count en \<le> RATE_LIMIT_MAX_REQUESTS)
   \<and> (store ip = None \<or> (\<exists>en. store ip = Some en \<and> resetTime en < t0) \<longrightarrow>
          checkRateLimit store t0 ip =
            (True, store(ip \<mapsto> \<lparr>count = 1, resetTime = t0 + RATE_LIMIT_WINDOW\<rparr>))
          \<and> ((\<forall>(t, a) \<in> set rest. a = ip \<longrightarrow> t \<le> t0 + RATE_LIMIT_WINDOW) \<longrightarrow>
                int (length (acceptedFor ip store ((t0, ip) # rest))) \<le> RATE_LIMIT_MAX_REQUESTS))
   \<and> (store ip = Some en \<and> t \<le> resetTime en \<and> RATE_LIMIT_MAX_REQUESTS \<le> count en \<longrightarrow>
          checkRateLimit store t ip = (False, store))
   \<and> (store ip = Some en \<and> t \<le> resetTime en \<and> count en < RATE_LIMIT_MAX_REQUESTS \<longrightarrow>
          checkRateLimit store t ip = (True, store(ip \<mapsto> en\<lparr>count := count en + 1\<rparr>)))
   \<and> (rateLimitStore w (clientIP e) = Some en \<and> now e \<le> resetTime en \<and>
        RATE_LIMIT_MAX_REQUESTS \<le> count en \<longrightarrow>
          POST e w = (w, ErrorJson 429 ''Too many requests''))"
proof -
  have inv: "\<forall>a en. snd (runLimiter emptyStore reqs) a = Some en \<longrightarrow>
          1 \<le> count en \<and> count en \<le> RATE_LIMIT_MAX_REQUESTS"
    by (rule runLimiter_bounded) (simp add: emptyStore_def)
  have window: "int (length (acceptedFor ip store ((t0, ip) # rest))) \<le> RATE_LIMIT_MAX_REQUESTS"
    if fresh: "store ip = None \<or> (\<exists>en. store ip = Some en \<and> resetTime en < t0)"
      and rest: "\<forall>(t, a) \<in> set rest. a = ip \<longrightarrow> t \<le> t0 + RATE_LIMIT_WINDOW"
  proof -
    let ?en = "\<lparr>count = 1, resetTime = t0 + RATE_LIMIT_WINDOW\<rparr>"
    let ?store = "store(ip \<mapsto> ?en)"
    have "int (length (acceptedFor ip ?store rest)) \<le> RATE_LIMIT_MAX_REQUESTS - count ?en"
      using rest by (intro window_count[of ?store ip ?en]) (auto simp: RATE_LIMIT_MAX_REQUESTS_def)
    then show ?thesis
      by (simp add: acceptedFor_Cons checkRateLimit_fresh[of store ip t0, OF fresh])
  qed
  have reject: "checkRateLimit store t ip = (False, store)"
    if "store ip = Some en" "t \<le> resetTime en" "RATE_LIMIT_MAX_REQUESTS \<le> count en"
    using that by (simp add: checkRateLimit_def)
  have accept: "checkRateLimit store t ip = (True, store(ip \<mapsto> en\<lparr>count := count en + 1\<rparr>))"
    if "store ip = Some en" "t \<le> resetTime en" "count en < RATE_LIMIT_MAX_REQUESTS"
    using that by (simp add: checkRateLimit_def)
  show ?thesis
    using inv window reject accept checkRateLimit_fresh[of store ip t0] POST_rate_limited[of w e en]
    by (simp add: RATE_LIMIT_MAX_REQUESTS_def RATE_LIMIT_WINDOW_def)
qed

theorem rate_limit_per_window_witness:
  "int (length (acceptedFor ''10.0.0.1'' emptyStore
          ((0, ''10.0.0.1'') # replicate 12 (59000, ''10.0.0.1'')))) \<le> 10 \<and>
   checkRateLimit fullStore 59000 ''10.0.0.1'' = (False, fullStore) \<and>
   checkRateLimit fullStore 60001 ''10.0.0.1'' =
     (True, fullStore(''10.0.0.1'' \<mapsto> \<lparr>count = 1, resetTime = 120001\<rparr>))"
proof -
  have h1: "emptyStore ''10.0.0.1'' = None" by (simp add: emptyStore_def)
  have h2: "fullStore ''10.0.0.1'' = Some \<lparr>count = 10, resetTime = 60000\<rparr>"
    by (simp add: fullStore_def)
  have h3: "\<forall>(t, a) \<in> set (replicate 12 (59000::int, ''10.0.0.1'')).
              a = ''10.0.0.1'' \<longrightarrow> t \<le> 0 + RATE_LIMIT_WINDOW"
    by (simp add: RATE_LIMIT_WINDOW_def)
  from rate_limit_per_window[where store = emptyStore and ip = "''10.0.0.1''" and ?t0.0 = 0
      and rest = "replicate 12 (59000, ''10.0.0.1'')"] h1 h3
  have w1: "int (length (acceptedFor ''10.0.0.1'' emptyStore
          ((0, ''10.0.0.1'') # replicate 12 (59000, ''10.0.0.1'')))) \<le> 10"
    by (simp add: RATE_LIMIT_WINDOW_def RATE_LIMIT_MAX_REQUESTS_def)
  from rate_limit_per_window[where store = fullStore and ip = "''10.0.0.1''" and t = 59000
      and en = "\<lparr>count = 10, resetTime = 60000\<rparr>"] h2
  have w2: "checkRateLimit fullStore 59000 ''10.0.0.1'' = (False, fullStore)"
    by (simp add: RATE_LIMIT_WINDOW_def RATE_LIMIT_MAX_REQUESTS_def)
  from rate_limit_per_window[where store = fullStore and ip = "''10.0.0.1''" and ?t0.0 = 60001] h2
  have w3: "checkRateLimit fullStore 60001 ''10.0.0.1'' =
     (True, fullStore(''10.0.0.1'' \<mapsto> \<lparr>count = 1, resetTime = 120001\<rparr>))"
    by (simp add: RATE_LIMIT_WINDOW_def RATE_LIMIT_MAX_REQUESTS_def)
  from w1 w2 w3 show ?thesis by simp
qed

subsection \<open>Claim on points\<close>

lemma POST_poor_user:
  assumes "POST e w = (w', r)" "authOutcome e = Session su"
    "users w (sessionUserId su) = Some row" "pointsBalance row < 1"
  shows "w' = w\<lparr>rateLimitStore := snd (checkRateLimit (rateLimitStore w) (now e) (clientIP e))\<rparr>
         \<and> status r \<noteq> 200
         \<and> (fst (checkRateLimit (rateLimitStore w) (now e) (clientIP e)) \<and>
              parseBody (json e) = Inr b \<and> \<not> dbFails e UserFindUnique \<longrightarrow>
                r = ErrorJson 400 ''Insufficient points'')"
proof -
  let ?w0 = "w\<lparr>rateLimitStore := snd (checkRateLimit (rateLimitStore w) (now e) (clientIP e))\<rparr>"
  have "users ?w0 (sessionUserId su) = Some row" using assms(3) by simp
  from validateUser_poor[OF this assms(4), of e]
  have vu: "validateUser e su ?w0 =
           (?w0, Inl (if dbFails e UserFindUnique then ErrorJson 503 ''Service temporarily unavailable''
                    else ErrorJson 400 ''Insufficient points''))" .
  from assms(1,2) vu show ?thesis
    by (auto simp: POST_def handle_def Let_def split: prod.splits sum.splits if_splits
             dest: parseBody_Inl)
qed

lemma POST_charged:
  assumes "POST e w = (w', r)" "status r = 200"
  shows "\<exists>su user. authOutcome e = Session su \<and> newBalance r = Some (pointsBalance user - 1) \<and>
           1 \<le> pointsBalance user \<and>
           (case users w (sessionUserId su) of Some row \<Rightarrow> user = row | None \<Rightarrow> pointsBalance user = 5) \<and>
           users w' = (users w)(sessionUserId su \<mapsto> user\<lparr>pointsBalance := pointsBalance user - 1\<rparr>) \<and>
           length (productChecks w') = length (productChecks w) + 1 \<and>
           pointsUsed (last (productChecks w')) = 1"
proof -
  let ?w0 = "w\<lparr>rateLimitStore := snd (checkRateLimit (rateLimitStore w) (now e) (clientIP e))\<rparr>"
  from POST_200[OF assms] obtain b su user w1 where
    au: "authOutcome e = Session su"
    and vu: "validateUser e su ?w0 = (w1, Inr user)"
    and v: "verify e su user b w1 = (w', Inr r)" by blast
  from validateUser_Inr[OF vu] have
    u1: "users w1 (sessionUserId su) = Some user" and pos: "1 \<le> pointsBalance user"
    and org: "case users ?w0 (sessionUserId su) of
            Some row \<Rightarrow> w1 = ?w0 \<and> user = row
          | None \<Rightarrow> pointsBalance user = 5 \<and> w1 = ?w0\<lparr>users := (users ?w0)(sessionUserId su \<mapsto> user)\<rparr>"
    by simp_all
  from validateUser_frame[OF vu] have pc: "productChecks w1 = productChecks w" by simp
  from org have us: "users w1 = (users w)(sessionUserId su \<mapsto> user)"
    by (auto split: option.splits)
  from verify_Inr[OF v]
  have resp: "respond e (sessionUserId su) user b (decide (foundAlerts e b (alerts w1)))
           (w1\<lparr>calls := calls w1 @ (if hasImages b then [OcrFetch] else []) @
                  issuedQueries b (searchText b (ocrTextOf e b))\<rparr>) = (w', Inr r)"
    by simp
  from respond_Inr[OF resp confidence_decide_nonzero] u1
  have r: "r = ResultJson (newCheckId e) (decide (foundAlerts e b (alerts w1))) (pointsBalance user - 1)"
    and w': "users w' = (users w1)(sessionUserId su \<mapsto> user\<lparr>pointsBalance := pointsBalance user - 1\<rparr>)"
    and pcs: "length (productChecks w') = length (productChecks w1) + 1"
       "pointsUsed (last (productChecks w')) = 1"
    by auto
  from org have "case users w (sessionUserId su) of Some row \<Rightarrow> user = row | None \<Rightarrow> pointsBalance user = 5"
    by (auto split: option.splits)
  with au r w' pcs pos us pc show ?thesis by auto
qed

text \<open>
  C9. A verification costs one point. For a request whose session user has a row with a
  balance below 1, the handler never answers with a verification result, and answers
  with status 400 and \<^verbatim>\<open>Insufficient points\<close> whenever the request has passed the rate
  limit, has a valid body and the user row could be read; in every case no query or other
  service call has been made and the tables of users, product checks and check results
  are unchanged (of the whole state only the rate-limit entry written in step 1 differs).
  For a request answered with a verification result, the session user's balance is
  decreased by exactly 1 and \<^verbatim>\<open>newBalance\<close> is the balance before the request minus 1;
  when the user row was created by the request, with 5 points, both are 4.
\<close>

theorem verification_costs_one_point:
  "(POST e w = (w', r) \<and> authOutcome e = Session su \<and>
    users w (sessionUserId su) = Some row \<and> pointsBalance row < 1 \<longrightarrow>
       status r \<noteq> 200
       \<and> (fst (checkRateLimit (rateLimitStore w) (now e) (clientIP e)) \<and>
            parseBody (json e) = Inr b \<and> \<not> dbFails e UserFindUnique \<longrightarrow>
              r = ErrorJson 400 ''Insufficient points'')
       \<and> w' = w\<lparr>rateLimitStore := snd (checkRateLimit (rateLimitStore w) (now e) (clientIP e))\<rparr>
       \<and> calls w' = calls w \<and> users w' = users w
       \<and> productChecks w' = productChecks w \<and> checkResults w' = checkResults w)
   \<and> (POST e w = (w', r) \<and> status r = 200 \<and> authOutcome e = Session su \<and>
       users w (sessionUserId su) = Some row \<longrightarrow>
         1 \<le> pointsBalance row
         \<and> newBalance r = Some (pointsBalance row - 1)
         \<and> users w' = (users w)(sessionUserId su \<mapsto> row\<lparr>pointsBalance := pointsBalance row - 1\<rparr>))
   \<and> (POST e w = (w', r) \<and> status r = 200 \<and> authOutcome e = Session su \<and>
       users w (sessionUserId su) = None \<longrightarrow>
         newBalance r = Some 4
         \<and> (\<exists>user. pointsBalance user = 5 \<and>
               users w' = (users w)(sessionUserId su \<mapsto> user\<lparr>pointsBalance := 4\<rparr>)))"
proof (intro conjI impI)
  assume a: "POST e w = (w', r) \<and> authOutcome e = Session su \<and>
    users w (sessionUserId su) = Some row \<and> pointsBalance row < 1"
  then have poor: "w' = w\<lparr>rateLimitStore := snd (checkRateLimit (rateLimitStore w) (now e) (clientIP e))\<rparr>
         \<and> status r \<noteq> 200
         \<and> (fst (checkRateLimit (rateLimitStore w) (now e) (clientIP e)) \<and>
              parseBody (json e) = Inr b \<and> \<not> dbFails e UserFindUnique \<longrightarrow>
                r = ErrorJson 400 ''Insufficient points'')"
    using POST_poor_user[of e w w' r su row b] by blast
  from poor show "status r \<noteq> 200" by blast
  from poor show "w' = w\<lparr>rateLimitStore := snd (checkRateLimit (rateLimitStore w) (now e) (clientIP e))\<rparr>"
    by blast
  then show "calls w' = calls w" "users w' = users w" "productChecks w' = productChecks w"
    "checkResults w' = checkResults w" by simp_all
  assume "fst (checkRateLimit (rateLimitStore w) (now e) (clientIP e)) \<and>
            parseBody (json e) = Inr b \<and> \<not> dbFails e UserFindUnique"
  with poor show "r = ErrorJson 400 ''Insufficient points''" by blast
next
  assume a: "POST e w = (w', r) \<and> status r = 200 \<and> authOutcome e = Session su \<and>
       users w (sessionUserId su) = Some row"
  with POST_charged[of e w w' r]
  have c: "newBalance r = Some (pointsBalance row - 1) \<and> 1 \<le> pointsBalance row \<and>
           users w' = (users w)(sessionUserId su \<mapsto> row\<lparr>pointsBalance := pointsBalance row - 1\<rparr>)"
    by auto
  from c show "1 \<le> pointsBalance row" by blast
  from c show "newBalance r = Some (pointsBalance row - 1)" by blast
  from c show "users w' = (users w)(sessionUserId su \<mapsto> row\<lparr>pointsBalance := pointsBalance row - 1\<rparr>)"
    by blast
next
  assume a: "POST e w = (w', r) \<and> status r = 200 \<and> authOutcome e = Session su \<and>
       users w (sessionUserId su) = None"
  with POST_charged[of e w w' r] obtain user where
    c: "newBalance r = Some (pointsBalance user - 1)" "pointsBalance user = 5"
       "users w' = (users w)(sessionUserId su \<mapsto> user\<lparr>pointsBalance := pointsBalance user - 1\<rparr>)"
    by auto
  from c show "newBalance r = Some 4" by simp
  from c show "\<exists>user. pointsBalance user = 5 \<and>
               users w' = (users w)(sessionUserId su \<mapsto> user\<lparr>pointsBalance := 4\<rparr>)"
    by auto
qed

theorem verification_costs_one_point_witness:
  "snd (POST aspirinEnv (someWorld 0)) = ErrorJson 400 ''Insufficient points'' \<and>
   calls (fst (POST aspirinEnv (someWorld 0))) = [] \<and>
   users (fst (POST aspirinEnv (someWorld 0))) = users (someWorld 0) \<and>
   newBalance (snd (POST aspirinEnv (someWorld 3))) = Some 2 \<and>
   users (fst (POST aspirinEnv (someWorld 3))) = userTable 2"
proof -
  have p0: "POST aspirinEnv (someWorld 0) =
              (fst (POST aspirinEnv (someWorld 0)), snd (POST aspirinEnv (someWorld 0)))" by simp
  have p3: "POST aspirinEnv (someWorld 3) =
              (fst (POST aspirinEnv (someWorld 3)), snd (POST aspirinEnv (someWorld 3)))" by simp
  have au: "authOutcome aspirinEnv = Session someUser" by (simp add: aspirinEnv_def)
  have u: "users (someWorld n) (sessionUserId someUser) =
             Some \<lparr>pointsBalance = n, userEmail = ''u1@example.org'', userName = ''U''\<rparr>" for n
    by (simp add: someWorld_def userTable_def someUser_def)
  have ok: "fst (checkRateLimit (rateLimitStore (someWorld 0)) (now aspirinEnv) (clientIP aspirinEnv))"
    by (simp add: someWorld_def emptyStore_def checkRateLimit_def)
  have pb: "parseBody (json aspirinEnv) = Inr (sanitizeBody aspirinBody)"
    by (simp add: parseBody_def aspirinEnv_def verifyProductSchema_def aspirinBody_def forbidden_def)
  have nf: "\<not> dbFails aspirinEnv UserFindUnique" by (simp add: aspirinEnv_def noFailure_def)
  have st: "status (snd (POST aspirinEnv (someWorld 3))) = 200" by code_simp
  have c0: "calls (someWorld 0) = []" by (simp add: someWorld_def)
  from verification_costs_one_point[where e = aspirinEnv and w = "someWorld 0"
      and w' = "fst (POST aspirinEnv (someWorld 0))" and r = "snd (POST aspirinEnv (someWorld 0))"
      and su = someUser and b = "sanitizeBody aspirinBody"
      and row = "\<lparr>pointsBalance = 0, userEmail = ''u1@example.org'', userName = ''U''\<rparr>"]
    p0 au u[of 0] ok pb nf c0
  have w0: "snd (POST aspirinEnv (someWorld 0)) = ErrorJson 400 ''Insufficient points'' \<and>
   calls (fst (POST aspirinEnv (someWorld 0))) = [] \<and>
   users (fst (POST aspirinEnv (someWorld 0))) = users (someWorld 0)"
    by simp
  from verification_costs_one_point[where e = aspirinEnv and w = "someWorld 3"
      and w' = "fst (POST aspirinEnv (someWorld 3))" and r = "snd (POST aspirinEnv (someWorld 3))"
      and su = someUser
      and row = "\<lparr>pointsBalance = 3, userEmail = ''u1@example.org'', userName = ''U''\<rparr>"]
    p3 au u[of 3] st
  have w3: "newBalance (snd (POST aspirinEnv (someWorld 3))) = Some 2 \<and>
   users (fst (POST aspirinEnv (someWorld 3))) = userTable 2"
    by (simp add: someWorld_def userTable_def someUser_def)
  from w0 w3 show ?thesis by simp
qed

subsection \<open>Claim on the search strategies\<close>

text \<open>
  C2, as stated, asks for three queries on every request. A request without a batch
  number is answered with a verification result after two queries only.
\<close>

theorem three_queries_counterexample:
  "status (snd (POST aspirinEnv (someWorld 3))) = 200 \<and>
   calls (fst (POST aspirinEnv (someWorld 3))) = [TitleQuery ''aspirin'', ContentQuery ''aspirin''] \<and>
   length (calls (fst (POST aspirinEnv (someWorld 3)))) \<noteq> 3"
  by code_simp

text \<open>
  C2, amended. The search runs up to three queries, in the order batch, title, content,
  each only under its guard: the batch query when a non-empty batch number is given, the
  title query when the product name has more than 3 characters, the content query when
  the search text has more than 5 characters; a strategy that does not run contributes
  no rows, and a query that throws ends the search. Each strategy yields at most 5 active
  rows, ordered by \<^verbatim>\<open>scrapedAt\<close> descending, and no matching row left out is more
  recent than a returned one. \<^verbatim>\<open>allMatches\<close> is the concatenation batch, title,
  content; deduplicating it keeps the batch rows, then the title rows whose id no batch
  row has, then the content rows whose id no batch or title row has, so that every
  matching alert is the first row of its id in the concatenation.
\<close>

theorem search_strategies_guarded_in_order:
  "(searchAlerts e b stext w = (w', out) \<longrightarrow>
      (\<exists>cs. calls w' = calls w @ cs \<and> prefix cs (issuedQueries b stext))
      \<and> (\<forall>rows. out = Inr rows \<longrightarrow>
            calls w' = calls w @ issuedQueries b stext \<and> rows = allMatches b stext (alerts w)))
   \<and> issuedQueries b stext =
        (if truthyOpt (cleanBatch b) then [BatchQuery (toUpperCase (orEmpty (cleanBatch b)))] else []) @
        (if 3 < length (cleanName b) then [TitleQuery (toLowerCase (cleanName b))] else []) @
        (if 5 < length stext then [ContentQuery (toLowerCase (firstToken stext))] else [])
   \<and> allMatches b stext table =
        batchMatches b table @ productMatches b table @ contentMatches stext table
   \<and> batchMatches b table =
        (if truthyOpt (cleanBatch b)
         then findMany (hasBatch (toUpperCase (orEmpty (cleanBatch b)))) table else [])
   \<and> productMatches b table =
        (if 3 < length (cleanName b)
         then findMany (titleContains (toLowerCase (cleanName b))) table else [])
   \<and> contentMatches stext table =
        (if 5 < length stext
         then findMany (contentContains (toLowerCase (firstToken stext))) table else [])
   \<and> (rs \<in> {batchMatches b table, productMatches b table, contentMatches stext table} \<longrightarrow>
        length rs \<le> 5 \<and> sorted_wrt (\<lambda>x y. scrapedAt y \<le> scrapedAt x) rs \<and>
        set rs \<subseteq> {a \<in> set table. active a})
   \<and> (a \<in> set (findMany m table) \<and> c \<in> set table \<and> active c \<and> m c \<and>
       c \<notin> set (findMany m table) \<longrightarrow> scrapedAt c \<le> scrapedAt a)
   \<and> dedupById (allMatches b stext table) =
        dedupById (batchMatches b table) @
        filter (\<lambda>x. alertId x \<notin> alertId ` set (batchMatches b table))
          (dedupById (productMatches b table)) @
        filter (\<lambda>x. alertId x \<notin> alertId ` set (batchMatches b table @ productMatches b table))
          (dedupById (contentMatches stext table))
   \<and> (a \<in> set (matchingAlerts (allMatches b stext table)) \<longrightarrow>
        find (\<lambda>x. alertId x = alertId a) (allMatches b stext table) = Some a)"
proof -
  have run: "(\<exists>cs. calls w' = calls w @ cs \<and> prefix cs (issuedQueries b stext))
      \<and> (\<forall>rows. out = Inr rows \<longrightarrow>
            calls w' = calls w @ issuedQueries b stext \<and> rows = allMatches b stext (alerts w))"
    if s: "searchAlerts e b stext w = (w', out)"
  proof -
    from searchAlerts_calls[OF s] obtain cs where
      "w' = w\<lparr>calls := calls w @ cs\<rparr>" "prefix cs (issuedQueries b stext)" by blast
    then have p: "\<exists>cs. calls w' = calls w @ cs \<and> prefix cs (issuedQueries b stext)"
      by auto
    have "calls w' = calls w @ issuedQueries b stext \<and> rows = allMatches b stext (alerts w)"
      if "out = Inr rows" for rows
      using searchAlerts_Inr[of e b stext w w' rows] s that by simp
    with p show ?thesis by blast
  qed
  have issued: "issuedQueries b stext =
        (if truthyOpt (cleanBatch b) then [BatchQuery (toUpperCase (orEmpty (cleanBatch b)))] else []) @
        (if 3 < length (cleanName b) then [TitleQuery (toLowerCase (cleanName b))] else []) @
        (if 5 < length stext then [ContentQuery (toLowerCase (firstToken stext))] else [])"
    by (auto simp: issuedQueries_def batchGuard_def batchNeedle_def titleGuard_def
          titleNeedle_def contentGuard_def contentNeedle_def truthy_def)
  have bm: "batchMatches b table =
        (if truthyOpt (cleanBatch b)
         then findMany (hasBatch (toUpperCase (orEmpty (cleanBatch b)))) table else [])"
    by (simp add: batchMatches_def batchGuard_def batchNeedle_def)
  have pm: "productMatches b table =
        (if 3 < length (cleanName b)
         then findMany (titleContains (toLowerCase (cleanName b))) table else [])"
    by (auto simp: productMatches_def titleGuard_def titleNeedle_def truthy_def)
  have cm: "contentMatches stext table =
        (if 5 < length stext
         then findMany (contentContains (toLowerCase (firstToken stext))) table else [])"
    by (auto simp: contentMatches_def contentGuard_def contentNeedle_def truthy_def)
  have dd: "dedupById (allMatches b stext table) =
        dedupById (batchMatches b table) @
        filter (\<lambda>x. alertId x \<notin> alertId ` set (batchMatches b table))
          (dedupById (productMatches b table)) @
        filter (\<lambda>x. alertId x \<notin> alertId ` set (batchMatches b table @ productMatches b table))
          (dedupById (contentMatches stext table))"
    unfolding allMatches_def by (rule dedupById_three)
  show ?thesis
    using run issued bm pm cm dd strategy_rows[of rs b table stext]
      findMany_most_recent[of a m table c] matchingAlerts_first[of a "allMatches b stext table"]
    by (simp only: allMatches_def[symmetric]) (simp add: allMatches_def)
qed

theorem search_strategies_guarded_in_order_witness:
  "dedupById (allMatches (sanitizeBody aspirinBody) ''aspirin pain relief tablets'' alertTable) =
     [aspirinAlert, syrupAlert]"
proof -
  have e1: "batchMatches (sanitizeBody aspirinBody) alertTable = []" by code_simp
  have e2: "productMatches (sanitizeBody aspirinBody) alertTable = [aspirinAlert]" by code_simp
  have e3: "contentMatches ''aspirin pain relief tablets'' alertTable = [syrupAlert, aspirinAlert]"
    by code_simp
  from search_strategies_guarded_in_order[where b = "sanitizeBody aspirinBody"
      and stext = "''aspirin pain relief tablets''" and table = alertTable]
  have "dedupById (allMatches (sanitizeBody aspirinBody) ''aspirin pain relief tablets'' alertTable) =
        dedupById (batchMatches (sanitizeBody aspirinBody) alertTable) @
        filter (\<lambda>x. alertId x \<notin> alertId ` set (batchMatches (sanitizeBody aspirinBody) alertTable))
          (dedupById (productMatches (sanitizeBody aspirinBody) alertTable)) @
        filter (\<lambda>x. alertId x \<notin> alertId ` set (batchMatches (sanitizeBody aspirinBody) alertTable
                    @ productMatches (sanitizeBody aspirinBody) alertTable))
          (dedupById (contentMatches ''aspirin pain relief tablets'' alertTable))"
    by blast
  then show ?thesis
    unfolding e1 e2 e3
    by (simp add: dedupById_Nil dedupById_Cons aspirinAlert_def syrupAlert_def)
qed

subsection \<open>Claim on the search text\<close>

text \<open>
  C7, as stated, has the content strategy return alerts whose content contains the first
  token. A valid request whose product name is \<^verbatim>\<open>asp_rin\<close> has that name as its first
  token, and its content query returns an alert whose content does not contain
  \<^verbatim>\<open>asp_rin\<close>: the underscore stands for any character.
\<close>

theorem content_contains_counterexample:
  "verifyProductSchema wildcardBody \<and>
   firstToken (searchText (sanitizeBody wildcardBody) []) = ''asp_rin'' \<and>
   aspirinAlert \<in> set (contentMatches (searchText (sanitizeBody wildcardBody) []) alertTable) \<and>
   \<not> hasSubstring (toLowerCase (the (cleanContent aspirinAlert))) ''asp_rin''"
  by code_simp

text \<open>
  C7, amended. The search text is the four attributes (name, description, batch number or
  the empty string, OCR text) joined by single spaces, lowercased and trimmed; the padding
  of the template literal disappears in the trim. The content strategy runs exactly when
  the search text has more than 5 characters, and asks with the part of the search text
  before its first space and nothing else of it; for a request that has passed validation
  and sanitisation with a non-empty name, that part is the first white-space-separated
  token of the search text, namely the first word of the product name in lower case. The
  rows it yields are the 5 most recently scraped of the active alerts whose lowercased
  content matches the pattern made of a percent sign, the token and a percent sign, in
  which a percent sign, an underscore or a backslash of the token keeps its meaning as a
  pattern character. When the token has none of these three characters, these are the
  active alerts whose lowercased content contains the token.
\<close>

theorem search_text_and_content_pattern:
  "searchText b ocrText =
     trim (toLowerCase (cleanName b @ '' '' @ cleanDescription b @ '' '' @
                        orEmpty (cleanBatch b) @ '' '' @ ocrText))
   \<and> contentMatches stext table =
       (if 5 < length stext
        then take 5 (sort_key (\<lambda>a. - scrapedAt a)
               (filter (\<lambda>a. active a \<and>
                  (case cleanContent a of
                     None \<Rightarrow> False
                   | Some c \<Rightarrow> likeMatch (CHR ''%'' # toLowerCase (firstToken stext) @ ''%'')
                                (toLowerCase c))) table))
        else [])
   \<and> (list_all (\<lambda>c. \<not> likeMeta c) (firstToken stext) \<longrightarrow>
        contentMatches stext table =
          (if 5 < length stext
           then take 5 (sort_key (\<lambda>a. - scrapedAt a)
                  (filter (\<lambda>a. active a \<and>
                     (case cleanContent a of
                        None \<Rightarrow> False
                      | Some c \<Rightarrow> hasSubstring (toLowerCase c) (toLowerCase (firstToken stext))))
                   table))
           else []))
   \<and> hasSubstring hay needle = (\<exists>pre post. hay = pre @ needle @ post)
   \<and> (ContentQuery needle \<in> set (issuedQueries b stext) \<longleftrightarrow>
        5 < length stext \<and> needle = toLowerCase (firstToken stext))
   \<and> toLowerCase (firstToken (searchText b ocrText)) = firstToken (searchText b ocrText)
   \<and> (verifyProductSchema body \<and> truthy (cleanName (sanitizeBody body)) \<longrightarrow>
        firstToken (searchText (sanitizeBody body) ocrText) =
          takeWhile (\<lambda>c. \<not> isSpace c) (searchText (sanitizeBody body) ocrText)
        \<and> firstToken (searchText (sanitizeBody body) ocrText) =
          toLowerCase (firstToken (cleanName (sanitizeBody body))))"
proof -
  have cc: "contentContains (toLowerCase (firstToken stext)) a =
        (case cleanContent a of
           None \<Rightarrow> False
         | Some c \<Rightarrow> likeMatch (CHR ''%'' # toLowerCase (firstToken stext) @ ''%'')
                      (toLowerCase c))" for a
    by (auto simp: contentContains_def containsInsensitive_eq likePattern_def
          toLowerCase_idem split: option.splits)
  have cm: "contentMatches stext table =
       (if 5 < length stext
        then take 5 (sort_key (\<lambda>a. - scrapedAt a)
               (filter (\<lambda>a. active a \<and>
                  (case cleanContent a of
                     None \<Rightarrow> False
                   | Some c \<Rightarrow> likeMatch (CHR ''%'' # toLowerCase (firstToken stext) @ ''%'')
                                (toLowerCase c))) table))
        else [])"
    by (auto simp: contentMatches_def contentGuard_def contentNeedle_def truthy_def findMany_def cc)
  have plain: "contentMatches stext table =
          (if 5 < length stext
           then take 5 (sort_key (\<lambda>a. - scrapedAt a)
                  (filter (\<lambda>a. active a \<and>
                     (case cleanContent a of
                        None \<Rightarrow> False
                      | Some c \<Rightarrow> hasSubstring (toLowerCase c) (toLowerCase (firstToken stext))))
                   table))
           else [])"
    if nm: "list_all (\<lambda>c. \<not> likeMeta c) (firstToken stext)"
  proof -
    from nm have "list_all (\<lambda>c. \<not> likeMeta c) (toLowerCase (firstToken stext))"
      by (simp add: toLowerCase_def list_all_iff likeMeta_lowerChar)
    then have "contentContains (toLowerCase (firstToken stext)) a =
        (case cleanContent a of
           None \<Rightarrow> False
         | Some c \<Rightarrow> hasSubstring (toLowerCase c) (toLowerCase (firstToken stext)))" for a
      by (auto simp: contentContains_def containsInsensitive_plain toLowerCase_idem
            split: option.splits)
    then show ?thesis
      by (auto simp: contentMatches_def contentGuard_def contentNeedle_def truthy_def findMany_def)
  qed
  have iq: "ContentQuery needle \<in> set (issuedQueries b stext) \<longleftrightarrow>
        5 < length stext \<and> needle = toLowerCase (firstToken stext)"
    by (auto simp: issuedQueries_def contentGuard_def contentNeedle_def truthy_def)
  have tok: "firstToken (searchText (sanitizeBody body) ocrText) =
          takeWhile (\<lambda>c. \<not> isSpace c) (searchText (sanitizeBody body) ocrText)
        \<and> firstToken (searchText (sanitizeBody body) ocrText) =
          toLowerCase (firstToken (cleanName (sanitizeBody body)))"
    if v: "verifyProductSchema body" and t: "truthy (cleanName (sanitizeBody body))"
  proof -
    from v obtain raw where raw: "productName body = Given raw"
      "list_all (\<lambda>c. \<not> forbidden c) raw"
      by (auto simp: verifyProductSchema_def split: field.splits)
    let ?n = "cleanName (sanitizeBody body)"
    have n: "?n = sanitizeInput raw"
      by (simp add: sanitizeBody_def raw fieldOpt_def orEmpty_def)
    from t have ne: "sanitizeInput raw \<noteq> []" by (simp add: truthy_def n)
    note shape = sanitizeInput_shape[OF raw(2) ne]
    let ?rest = "cleanDescription (sanitizeBody body) @ '' '' @
                 orEmpty (cleanBatch (sanitizeBody body)) @ '' '' @ ocrText"
    have st: "searchText (sanitizeBody body) ocrText =
                trim (toLowerCase (sanitizeInput raw @ CHR '' '' # ?rest))"
      by (simp add: searchText_plain n)
    from first_token_of_padded_name[OF ne shape, of ?rest] show ?thesis
      by (simp only: st n)
  qed
  show ?thesis
    using searchText_plain[of b ocrText] cm plain iq searchText_lowercase[of b ocrText]
      hasSubstring_iff[of hay needle] tok
    by blast
qed

theorem search_text_and_content_pattern_witness:
  "firstToken (searchText (sanitizeBody aspirinBody) []) = ''aspirin'' \<and>
   takeWhile (\<lambda>c. \<not> isSpace c) (searchText (sanitizeBody aspirinBody) []) = ''aspirin'' \<and>
   contentMatches (searchText (sanitizeBody aspirinBody) []) [aspirinAlert, syrupAlert, vitaminAlert] =
     [syrupAlert, aspirinAlert]"
proof -
  let ?s = "searchText (sanitizeBody aspirinBody) []"
  have v: "verifyProductSchema aspirinBody"
    by (simp add: verifyProductSchema_def aspirinBody_def forbidden_def)
  have t: "truthy (cleanName (sanitizeBody aspirinBody))" by code_simp
  have n: "toLowerCase (firstToken (cleanName (sanitizeBody aspirinBody))) = ''aspirin''"
    by code_simp
  have m: "list_all (\<lambda>c. \<not> likeMeta c) (firstToken ?s)" by code_simp
  have rows: "(if 5 < length ?s
           then take 5 (sort_key (\<lambda>a. - scrapedAt a)
                  (filter (\<lambda>a. active a \<and>
                     (case cleanContent a of
                        None \<Rightarrow> False
                      | Some c \<Rightarrow> hasSubstring (toLowerCase c) (toLowerCase (firstToken ?s))))
                   [aspirinAlert, syrupAlert, vitaminAlert]))
           else []) = [syrupAlert, aspirinAlert]"
    by code_simp
  note inst = search_text_and_content_pattern[where b = "sanitizeBody aspirinBody"
      and ocrText = "[]" and body = aspirinBody and stext = "?s"
      and table = "[aspirinAlert, syrupAlert, vitaminAlert]"]
  from inst v t
  have tk: "firstToken ?s = takeWhile (\<lambda>c. \<not> isSpace c) ?s"
    and nm: "firstToken ?s = toLowerCase (firstToken (cleanName (sanitizeBody aspirinBody)))"
    by blast+
  from inst m
  have "contentMatches ?s [aspirinAlert, syrupAlert, vitaminAlert] =
          (if 5 < length ?s
           then take 5 (sort_key (\<lambda>a. - scrapedAt a)
                  (filter (\<lambda>a. active a \<and>
                     (case cleanContent a of
                        None \<Rightarrow> False
                      | Some c \<Rightarrow> hasSubstring (toLowerCase c) (toLowerCase (firstToken ?s))))
                   [aspirinAlert, syrupAlert, vitaminAlert]))
           else [])"
    by blast
  then have cm: "contentMatches ?s [aspirinAlert, syrupAlert, vitaminAlert] =
                   [syrupAlert, aspirinAlert]"
    by (simp only: rows)
  from tk nm n cm show ?thesis by simp
qed


end
